theory Spec2Isabelle
  imports Main "HOL-Library.AList"
begin

section \<open>The Molecule graph of lpp\_stdlib.hpp\<close>

text \<open>
  The graph core of \<^verbatim>\<open>stdlib/lpp_stdlib.hpp\<close>: the class \<^verbatim>\<open>Molecule<T>\<close> with its
  bond kinds, and the four standalone functions on a bare adjacency mapping.

  Containers. A \<^verbatim>\<open>std::unordered_map<T, std::vector<T>>\<close> is an association list, read
  with \<open>map_of\<close> (\<^verbatim>\<open>find\<close>) and written with \<open>AList.update\<close> (\<^verbatim>\<open>operator[]\<close>); the list
  gives the entries in the order a range-for visits them. That order is unspecified in
  C++, and the theorems below hold for every list, hence for every order. The
  \<^verbatim>\<open>std::unordered_set<T> atoms\<close> is the list of its elements in iteration order; an
  inserted element is put at the end, and what is proved of the functions that iterate
  over \<^verbatim>\<open>atoms\<close> is proved for every list that satisfies the invariant. The
  local \<^verbatim>\<open>visited\<close> sets are only inserted into and searched, so they are plain sets;
  a \<^verbatim>\<open>std::queue<T>\<close> is a list with the front at the head.
\<close>

subsection \<open>Data model\<close>

datatype BondType = SINGLE | DOUBLE | ARROW | BIDIRECTIONAL

record 'a MoleculeBond =
  b_from :: 'a
  b_to :: 'a
  b_type :: BondType

type_synonym 'a adjmap = "('a \<times> 'a list) list"

record 'a Molecule =
  adjacency :: "'a adjmap"
  bonds :: "'a MoleculeBond list"
  atoms :: "'a list"

text \<open>The default constructor: three empty containers.\<close>

definition Molecule_init :: "'a Molecule" where
  "Molecule_init = \<lparr>adjacency = [], bonds = [], atoms = []\<rparr>"

text \<open>
  \<^verbatim>\<open>it = m.find(k); if (it != m.end()) ... it->second ...\<close>: the vector stored under
  \<open>k\<close>, and no element to visit when \<open>k\<close> is not a key.
\<close>

definition find_list :: "'a adjmap \<Rightarrow> 'a \<Rightarrow> 'a list" where
  "find_list m k = (case map_of m k of None \<Rightarrow> [] | Some ns \<Rightarrow> ns)"

text \<open>
  \<^verbatim>\<open>m[k].push_back(v)\<close>: \<^verbatim>\<open>operator[]\<close> creates an empty vector under a missing key,
  then the value is appended.
\<close>

definition push_back_at :: "'a adjmap \<Rightarrow> 'a \<Rightarrow> 'a \<Rightarrow> 'a adjmap" where
  "push_back_at m k v = AList.update k (find_list m k @ [v]) m"

subsection \<open>Mutators and simple queries\<close>

definition hasAtom :: "'a Molecule \<Rightarrow> 'a \<Rightarrow> bool" where
  "hasAtom g atom = (atom \<in> set (atoms g))"

definition addAtom :: "'a Molecule \<Rightarrow> 'a \<Rightarrow> 'a Molecule" where
  "addAtom g atom =
     (if atom \<in> set (atoms g) then g
      else let g1 = g\<lparr>atoms := atoms g @ [atom]\<rparr>
           in if map_of (adjacency g1) atom = None
              then g1\<lparr>adjacency := AList.update atom [] (adjacency g1)\<rparr>
              else g1)"

text \<open>The scan over \<^verbatim>\<open>bonds\<close> that both \<^verbatim>\<open>addBond\<close> and \<^verbatim>\<open>hasBond\<close> run.\<close>

fun scan_bonds :: "'a MoleculeBond list \<Rightarrow> 'a \<Rightarrow> 'a \<Rightarrow> BondType \<Rightarrow> bool" where
  "scan_bonds [] f t ty = False"
| "scan_bonds (bond # rest) f t ty =
     (if b_from bond = f \<and> b_to bond = t \<and> b_type bond = ty then True
      else scan_bonds rest f t ty)"

definition hasBond :: "'a Molecule \<Rightarrow> 'a \<Rightarrow> 'a \<Rightarrow> BondType \<Rightarrow> bool" where
  "hasBond g f t ty = scan_bonds (bonds g) f t ty"

definition addBond :: "'a Molecule \<Rightarrow> 'a \<Rightarrow> 'a \<Rightarrow> BondType \<Rightarrow> 'a Molecule" where
  "addBond g f t ty =
     (let g1 = addAtom (addAtom g f) t
      in if scan_bonds (bonds g1) f t ty then g1
         else let g2 = g1\<lparr>bonds := bonds g1 @ [\<lparr>b_from = f, b_to = t, b_type = ty\<rparr>]\<rparr>;
                  g3 = g2\<lparr>adjacency := push_back_at (adjacency g2) f t\<rparr>
              in if ty = SINGLE \<or> ty = BIDIRECTIONAL
                 then g3\<lparr>adjacency := push_back_at (adjacency g3) t f\<rparr>
                 else if ty = DOUBLE
                 then g3\<lparr>adjacency := push_back_at (adjacency g3) t f\<rparr>
                 else g3)"

definition neighbors :: "'a Molecule \<Rightarrow> 'a \<Rightarrow> 'a list" where
  "neighbors g atom = find_list (adjacency g) atom"

definition atomCount :: "'a Molecule \<Rightarrow> nat" where
  "atomCount g = length (atoms g)"

definition bondCount :: "'a Molecule \<Rightarrow> nat" where
  "bondCount g = length (bonds g)"

definition clear :: "'a Molecule \<Rightarrow> 'a Molecule" where
  "clear g = g\<lparr>atoms := [], bonds := [], adjacency := []\<rparr>"

definition empty :: "'a Molecule \<Rightarrow> bool" where
  "empty g = (atoms g = [] \<and> bonds g = [])"

text \<open>
  The states a caller can build: the members are private, so every Molecule is the empty
  one after some calls of the three mutators.
\<close>

inductive built :: "'a Molecule \<Rightarrow> bool" where
  built_init: "built Molecule_init"
| built_addAtom: "built g \<Longrightarrow> built (addAtom g atom)"
| built_addBond: "built g \<Longrightarrow> built (addBond g f t ty)"
| built_clear: "built g \<Longrightarrow> built (clear g)"

text \<open>What every built state satisfies.\<close>

definition Molecule_inv :: "'a Molecule \<Rightarrow> bool" where
  "Molecule_inv g =
     ((\<forall>b \<in> set (bonds g). b_from b \<in> set (atoms g) \<and> b_to b \<in> set (atoms g)) \<and>
      distinct (atoms g) \<and>
      set (atoms g) \<subseteq> fst ` set (adjacency g) \<and>
      (\<forall>b \<in> set (bonds g). b_to b \<in> set (neighbors g (b_from b)) \<and>
          (b_type b \<noteq> ARROW \<longrightarrow> b_from b \<in> set (neighbors g (b_to b)))))"

subsection \<open>Reachability, and what the termination proofs need\<close>

text \<open>
  The edges of a mapping: \<open>v\<close> is listed under the key \<open>u\<close>. A node that is not a key has
  no outgoing edge. \<open>listed\<close> is the finite set of all nodes that occur in some vector;
  every search only ever marks such nodes, which bounds its running time.
\<close>

definition edges :: "'a adjmap \<Rightarrow> ('a \<times> 'a) set" where
  "edges m = {(u, v). v \<in> set (find_list m u)}"

definition listed :: "'a adjmap \<Rightarrow> 'a set" where
  "listed m = (\<Union>e \<in> set m. set (snd e))"

text \<open>
  The body shared by the breadth-first loops of \<^verbatim>\<open>bfs\<close>, \<^verbatim>\<open>hasPath\<close> and
  \<^verbatim>\<open>graphCountComponents\<close> (lines 733-740, 790-797, 998-1005):
  \<^verbatim>\<open>for (neighbor : neighs) if (visited.find(neighbor) == visited.end())
    { visited.insert(neighbor); queue.push(neighbor); }\<close>
\<close>

fun enqueue_unvisited :: "'a list \<Rightarrow> 'a set \<times> 'a list \<Rightarrow> 'a set \<times> 'a list" where
  "enqueue_unvisited [] (visited, queue) = (visited, queue)"
| "enqueue_unvisited (neighbor # rest) (visited, queue) =
     (if neighbor \<notin> visited
      then enqueue_unvisited rest (insert neighbor visited, queue @ [neighbor])
      else enqueue_unvisited rest (visited, queue))"

text \<open>
  For the proofs: the nodes which that loop appends to the queue, in order.
\<close>

fun fresh :: "'a set \<Rightarrow> 'a list \<Rightarrow> 'a list" where
  "fresh V [] = []"
| "fresh V (n # ns) = (if n \<notin> V then n # fresh (insert n V) ns else fresh V ns)"

lemma set_fresh: "set (fresh V ns) = set ns - V"
  by (induction ns arbitrary: V) auto

lemma distinct_fresh: "distinct (fresh V ns)"
  by (induction ns arbitrary: V) (auto simp: set_fresh)

lemma enqueue_unvisited_eq: "enqueue_unvisited ns (V, Q) = (V \<union> set ns, Q @ fresh V ns)"
  by (induction ns arbitrary: V Q) auto

lemma finite_listed: "finite (listed m)"
  by (simp add: listed_def)

lemma find_list_listed: "set (find_list m u) \<subseteq> listed m"
proof
  fix x assume "x \<in> set (find_list m u)"
  then obtain ns where ns: "map_of m u = Some ns" "x \<in> set ns"
    by (cases "map_of m u") (auto simp: find_list_def)
  then have "(u, ns) \<in> set m" by (simp add: map_of_SomeD)
  with ns(2) show "x \<in> listed m" by (force simp: listed_def)
qed

lemma enqueue_measure:
  assumes "set ns \<subseteq> U" and "finite U"
  shows "card (U - (V \<union> set ns)) < card (U - V) \<or>
         (card (U - (V \<union> set ns)) = card (U - V) \<and> fresh V ns = [])"
proof (cases "set ns \<subseteq> V")
  case True
  then have "V \<union> set ns = V" by auto
  moreover from True have "set (fresh V ns) = {}"
    by (auto simp: set_fresh)
  then have "fresh V ns = []" by simp
  ultimately show ?thesis by simp
next
  case False
  then obtain x where x: "x \<in> set ns" "x \<notin> V" by auto
  with assms have "U - (V \<union> set ns) \<subset> U - V" by auto
  then show ?thesis
    using assms(2) by (simp add: psubset_card_mono)
qed

subsection \<open>Traversals of the Molecule\<close>

text \<open>
  \<^verbatim>\<open>Molecule::hasPath\<close> (lines 761-801). The while loop takes the front of the queue,
  answers true when it is \<open>to\<close>, and otherwise enqueues its unvisited neighbours; an
  empty queue ends the loop with false.
\<close>

function hasPath_loop :: "'a Molecule \<Rightarrow> 'a \<Rightarrow> 'a list \<Rightarrow> 'a set \<Rightarrow> bool" where
  "hasPath_loop g to [] visited = False"
| "hasPath_loop g to (current # queue) visited =
     (if current = to then True
      else case enqueue_unvisited (neighbors g current) (visited, queue) of
             (visited', queue') \<Rightarrow> hasPath_loop g to queue' visited')"
  by pat_completeness auto
termination
proof (relation "measures [\<lambda>(g, to, q, v). card (listed (adjacency g) - v), \<lambda>(g, to, q, v). length q]", goal_cases)
  case 1
  then show ?case by simp
next
  case (2 g to current queue visited x y)
  then show ?case
    using enqueue_measure [of "find_list (adjacency g) current" "listed (adjacency g)" visited,
        OF find_list_listed finite_listed]
    by (auto simp: enqueue_unvisited_eq neighbors_def)
qed

definition hasPath :: "'a Molecule \<Rightarrow> 'a \<Rightarrow> 'a \<Rightarrow> bool" where
  "hasPath g from to =
     (if \<not> hasAtom g from \<or> \<not> hasAtom g to then False
      else if from = to then True
      else hasPath_loop g to [from] {from})"

text \<open>
  \<^verbatim>\<open>Molecule::bfs\<close> (lines 712-744): the same loop, appending each node taken from the
  queue to the result.
\<close>

function bfs_loop :: "'a Molecule \<Rightarrow> 'a list \<Rightarrow> 'a set \<Rightarrow> 'a list \<Rightarrow> 'a list" where
  "bfs_loop g [] visited result = result"
| "bfs_loop g (current # queue) visited result =
     (case enqueue_unvisited (neighbors g current) (visited, queue) of
        (visited', queue') \<Rightarrow> bfs_loop g queue' visited' (result @ [current]))"
  by pat_completeness auto
termination
proof (relation "measures [\<lambda>(g, q, v, r). card (listed (adjacency g) - v), \<lambda>(g, q, v, r). length q]",
    goal_cases)
  case 1
  then show ?case by simp
next
  case (2 g current queue visited result x y)
  then show ?case
    using enqueue_measure [of "find_list (adjacency g) current" "listed (adjacency g)" visited,
        OF find_list_listed finite_listed]
    by (auto simp: enqueue_unvisited_eq neighbors_def)
qed

definition bfs :: "'a Molecule \<Rightarrow> 'a \<Rightarrow> 'a list" where
  "bfs g start = (if \<not> hasAtom g start then [] else bfs_loop g [start] {start} [])"

text \<open>
  \<^verbatim>\<open>Molecule::dfsHelper\<close> (lines 838-851) and its range-for as a second function. The
  sets \<^verbatim>\<open>visited\<close> and \<^verbatim>\<open>result\<close> are passed by reference in the source, so the state
  after a recursive call is the state in which the loop goes on: the recursion is nested,
  and its termination proof uses that a call never removes a visited node.
\<close>

function dfsHelper :: "'a Molecule \<Rightarrow> 'a \<Rightarrow> 'a set \<times> 'a list \<Rightarrow> 'a set \<times> 'a list"
  and dfsHelper_for :: "'a Molecule \<Rightarrow> 'a list \<Rightarrow> 'a set \<times> 'a list \<Rightarrow> 'a set \<times> 'a list"
  where
  "dfsHelper g node (visited, result) =
     dfsHelper_for g (neighbors g node) (insert node visited, result @ [node])"
| "dfsHelper_for g [] s = s"
| "dfsHelper_for g (neighbor # rest) (visited, result) =
     (if neighbor \<notin> visited
      then dfsHelper_for g rest (dfsHelper g neighbor (visited, result))
      else dfsHelper_for g rest (visited, result))"
  by pat_completeness auto

lemma dfsHelper_visited_mono:
  "dfsHelper_dfsHelper_for_dom (Inl (g, node, s)) \<Longrightarrow> fst s \<subseteq> fst (dfsHelper g node s)"
  "dfsHelper_dfsHelper_for_dom (Inr (g, ns, s)) \<Longrightarrow> fst s \<subseteq> fst (dfsHelper_for g ns s)"
proof (induction g node s and g ns s rule: dfsHelper_dfsHelper_for.pinduct)
  case (1 g node visited result)
  then show ?case by (auto simp: dfsHelper.psimps)
next
  case (2 g s)
  then show ?case by (simp add: dfsHelper_for.psimps)
next
  case (3 g neighbor rest visited result)
  then show ?case by (auto simp: dfsHelper_for.psimps)
qed

termination dfsHelper
proof (relation "measures
    [\<lambda>x. case x of Inl (g, node, s) \<Rightarrow> card ((listed (adjacency g) - fst s) \<union> {node})
            | Inr (g, ns, s) \<Rightarrow> card ((listed (adjacency g) \<union> set ns) - fst s),
     \<lambda>x. case x of Inl (g, node, s) \<Rightarrow> 0 | Inr (g, ns, s) \<Rightarrow> Suc (length ns)]", goal_cases)
  case 1
  then show ?case by simp
next
  case (2 g node visited result)
  let ?U = "listed (adjacency g)"
  have "(?U \<union> set (find_list (adjacency g) node)) - insert node visited \<subset> (?U - visited) \<union> {node}"
    using find_list_listed [of "adjacency g" node] by auto
  then have "card ((?U \<union> set (find_list (adjacency g) node)) - insert node visited)
      < card ((?U - visited) \<union> {node})"
    by (intro psubset_card_mono) (simp_all add: finite_listed)
  then show ?case by (simp add: neighbors_def)
next
  case (3 g neighbor rest visited result)
  let ?U = "listed (adjacency g)"
  have "(?U - visited) \<union> {neighbor} \<subseteq> (?U \<union> set (neighbor # rest)) - visited"
    using 3 by auto
  then have "card ((?U - visited) \<union> {neighbor}) \<le> card ((?U \<union> set (neighbor # rest)) - visited)"
    by (intro card_mono) (simp_all add: finite_listed)
  then show ?case by auto
next
  case (4 g neighbor rest visited result)
  let ?U = "listed (adjacency g)"
  have "visited \<subseteq> fst (dfsHelper g neighbor (visited, result))"
    using dfsHelper_visited_mono(1) [OF 4(2)] by simp
  then have "(?U \<union> set rest) - fst (dfsHelper g neighbor (visited, result))
      \<subseteq> (?U \<union> set (neighbor # rest)) - visited"
    by auto
  then have "card ((?U \<union> set rest) - fst (dfsHelper g neighbor (visited, result)))
      \<le> card ((?U \<union> set (neighbor # rest)) - visited)"
    by (intro card_mono) (simp_all add: finite_listed)
  then show ?case by auto
next
  case (5 g neighbor rest visited result)
  let ?U = "listed (adjacency g)"
  have "(?U \<union> set rest) - visited \<subseteq> (?U \<union> set (neighbor # rest)) - visited"
    by auto
  then have "card ((?U \<union> set rest) - visited) \<le> card ((?U \<union> set (neighbor # rest)) - visited)"
    by (intro card_mono) (simp_all add: finite_listed)
  then show ?case by auto
qed

definition dfs :: "'a Molecule \<Rightarrow> 'a \<Rightarrow> 'a list" where
  "dfs g start = (if \<not> hasAtom g start then [] else snd (dfsHelper g start ({}, [])))"

definition isConnected :: "'a Molecule \<Rightarrow> bool" where
  "isConnected g =
     (case atoms g of [] \<Rightarrow> True
      | start # _ \<Rightarrow> length (bfs g start) = atomCount g)"

text \<open>
  \<^verbatim>\<open>m[k]\<close> read on a \<^verbatim>\<open>std::unordered_map<T, T>\<close>: the stored value, or the
  default-constructed one when \<open>k\<close> is not a key. (The read also stores that default under
  \<open>k\<close>; the maps read this way are never searched or iterated, so a later read gives the
  same value either way.) The default value \<^verbatim>\<open>T()\<close> of the node type is the parameter
  \<open>dflt\<close> of the functions below.
\<close>

definition at_or :: "'b \<Rightarrow> ('a \<rightharpoonup> 'b) \<Rightarrow> 'a \<Rightarrow> 'b" where
  "at_or d m k = (case m k of None \<Rightarrow> d | Some v \<Rightarrow> v)"

text \<open>
  \<^verbatim>\<open>Molecule::hasCycleHelper\<close> (lines 854-876), with its range-for as a second function.
  The boolean is the value returned; an early \<^verbatim>\<open>return true\<close> leaves the loop.
\<close>

function hasCycleHelper ::
    "'a \<Rightarrow> 'a Molecule \<Rightarrow> 'a \<Rightarrow> 'a \<Rightarrow> 'a set \<times> ('a \<rightharpoonup> 'a) \<Rightarrow> bool \<times> 'a set \<times> ('a \<rightharpoonup> 'a)"
  and hasCycleHelper_for ::
    "'a \<Rightarrow> 'a Molecule \<Rightarrow> 'a \<Rightarrow> 'a list \<Rightarrow> 'a set \<times> ('a \<rightharpoonup> 'a) \<Rightarrow> bool \<times> 'a set \<times> ('a \<rightharpoonup> 'a)"
  where
  "hasCycleHelper dflt g node par (visited, parent) =
     hasCycleHelper_for dflt g node (neighbors g node) (insert node visited, parent(node \<mapsto> par))"
| "hasCycleHelper_for dflt g node [] s = (False, s)"
| "hasCycleHelper_for dflt g node (neighbor # rest) (visited, parent) =
     (if neighbor \<notin> visited
      then (let r = hasCycleHelper dflt g neighbor node (visited, parent)
            in if fst r then (True, snd r)
               else hasCycleHelper_for dflt g node rest (snd r))
      else if neighbor \<noteq> at_or dflt parent node then (True, (visited, parent))
      else hasCycleHelper_for dflt g node rest (visited, parent))"
  by pat_completeness auto

lemma hasCycleHelper_visited_mono:
  "hasCycleHelper_hasCycleHelper_for_dom (Inl (dflt, g, node, par, s)) \<Longrightarrow>
     fst s \<subseteq> fst (snd (hasCycleHelper dflt g node par s))"
  "hasCycleHelper_hasCycleHelper_for_dom (Inr (dflt, g, node, ns, s)) \<Longrightarrow>
     fst s \<subseteq> fst (snd (hasCycleHelper_for dflt g node ns s))"
proof (induction dflt g node par s and dflt g node ns s rule: hasCycleHelper_hasCycleHelper_for.pinduct)
  case (1 dflt g node par visited parent)
  then show ?case by (auto simp: hasCycleHelper.psimps)
next
  case (2 dflt g node s)
  then show ?case by (simp add: hasCycleHelper_for.psimps)
next
  case (3 dflt g node neighbor rest visited parent)
  note eq = hasCycleHelper_for.psimps(2) [OF 3(1)]
  show ?case
  proof (cases "neighbor \<in> visited")
    case True
    show ?thesis
    proof (cases "neighbor = at_or dflt parent node")
      case eqp: True
      have ne: "\<not> neighbor \<noteq> at_or dflt parent node" using eqp by simp
      have "hasCycleHelper_for dflt g node (neighbor # rest) (visited, parent) =
          hasCycleHelper_for dflt g node rest (visited, parent)"
        unfolding eq using True eqp by simp
      then show ?thesis
        using 3(4) [OF _ ne] True by simp
    next
      case False
      with True show ?thesis by (simp add: eq)
    qed
  next
    case False
    let ?r = "hasCycleHelper dflt g neighbor node (visited, parent)"
    have m1: "visited \<subseteq> fst (snd ?r)"
      using 3(2) [OF False] by simp
    show ?thesis
    proof (cases "fst ?r")
      case True
      with False m1 show ?thesis by (simp add: eq Let_def)
    next
      case nf: False
      have "fst (snd ?r) \<subseteq> fst (snd (hasCycleHelper_for dflt g node rest (snd ?r)))"
        by (rule 3(3) [OF False refl nf])
      with False nf m1 show ?thesis by (auto simp: eq Let_def)
    qed
  qed
qed

termination hasCycleHelper
proof (relation "measures
    [\<lambda>x. case x of Inl (dflt, g, node, par, s) \<Rightarrow> card ((listed (adjacency g) - fst s) \<union> {node})
            | Inr (dflt, g, node, ns, s) \<Rightarrow> card ((listed (adjacency g) \<union> set ns) - fst s),
     \<lambda>x. case x of Inl (dflt, g, node, par, s) \<Rightarrow> 0 | Inr (dflt, g, node, ns, s) \<Rightarrow> Suc (length ns)]",
    goal_cases)
  case 1
  then show ?case by simp
next
  case (2 dflt g node par visited parent)
  let ?U = "listed (adjacency g)"
  have "(?U \<union> set (find_list (adjacency g) node)) - insert node visited \<subset> (?U - visited) \<union> {node}"
    using find_list_listed [of "adjacency g" node] by auto
  then have "card ((?U \<union> set (find_list (adjacency g) node)) - insert node visited)
      < card ((?U - visited) \<union> {node})"
    by (intro psubset_card_mono) (simp_all add: finite_listed)
  then show ?case by (simp add: neighbors_def)
next
  case (3 dflt g node neighbor rest visited parent)
  let ?U = "listed (adjacency g)"
  have "(?U - visited) \<union> {neighbor} \<subseteq> (?U \<union> set (neighbor # rest)) - visited"
    using 3 by auto
  then have "card ((?U - visited) \<union> {neighbor}) \<le> card ((?U \<union> set (neighbor # rest)) - visited)"
    by (intro card_mono) (simp_all add: finite_listed)
  then show ?case by auto
next
  case (4 dflt g node neighbor rest visited parent x)
  let ?U = "listed (adjacency g)"
  from 4 have d: "hasCycleHelper_hasCycleHelper_for_dom (Inl (dflt, g, neighbor, node, visited, parent))"
    by simp
  have "visited \<subseteq> fst (snd (hasCycleHelper dflt g neighbor node (visited, parent)))"
    using hasCycleHelper_visited_mono(1) [OF d] by simp
  then have "(?U \<union> set rest) - fst (snd (hasCycleHelper dflt g neighbor node (visited, parent)))
      \<subseteq> (?U \<union> set (neighbor # rest)) - visited"
    by auto
  then have "card ((?U \<union> set rest) - fst (snd (hasCycleHelper dflt g neighbor node (visited, parent))))
      \<le> card ((?U \<union> set (neighbor # rest)) - visited)"
    by (intro card_mono) (simp_all add: finite_listed)
  with 4 show ?case by auto
next
  case (5 dflt g node neighbor rest visited parent)
  let ?U = "listed (adjacency g)"
  have "(?U \<union> set rest) - visited \<subseteq> (?U \<union> set (neighbor # rest)) - visited"
    by auto
  then have "card ((?U \<union> set rest) - visited) \<le> card ((?U \<union> set (neighbor # rest)) - visited)"
    by (intro card_mono) (simp_all add: finite_listed)
  then show ?case by auto
qed

text \<open>
  \<^verbatim>\<open>Molecule::hasCycle\<close> (lines 818-834): one search from each node that is not visited
  yet, in the iteration order of \<^verbatim>\<open>atoms\<close>, each with \<^verbatim>\<open>T()\<close> as the parent of its root.
\<close>

fun hasCycle_loop :: "'a \<Rightarrow> 'a Molecule \<Rightarrow> 'a list \<Rightarrow> 'a set \<times> ('a \<rightharpoonup> 'a) \<Rightarrow> bool" where
  "hasCycle_loop dflt g [] s = False"
| "hasCycle_loop dflt g (atom # rest) (visited, parent) =
     (if atom \<notin> visited
      then (let r = hasCycleHelper dflt g atom dflt (visited, parent)
            in if fst r then True else hasCycle_loop dflt g rest (snd r))
      else hasCycle_loop dflt g rest (visited, parent))"

definition hasCycle :: "'a \<Rightarrow> 'a Molecule \<Rightarrow> bool" where
  "hasCycle dflt g = hasCycle_loop dflt g (atoms g) ({}, Map.empty)"

subsection \<open>The functions on a bare adjacency mapping\<close>

text \<open>
  \<^verbatim>\<open>graphHasPath\<close> (lines 883-918). Its range-for returns true at the first neighbour
  equal to \<open>end\<close>, before the visited test; the boolean of \<open>graphHasPath_for\<close> is that early
  return.
\<close>

fun graphHasPath_for :: "'a \<Rightarrow> 'a list \<Rightarrow> 'a set \<times> 'a list \<Rightarrow> bool \<times> 'a set \<times> 'a list" where
  "graphHasPath_for end [] s = (False, s)"
| "graphHasPath_for end (neighbor # rest) (visited, queue) =
     (if neighbor = end then (True, (visited, queue))
      else if neighbor \<notin> visited
      then graphHasPath_for end rest (insert neighbor visited, queue @ [neighbor])
      else graphHasPath_for end rest (visited, queue))"

lemma graphHasPath_for_not_found:
  "\<not> fst (graphHasPath_for e ns s) \<Longrightarrow> snd (graphHasPath_for e ns s) = enqueue_unvisited ns s"
  by (induction e ns s rule: graphHasPath_for.induct) (auto split: if_splits)

function graphHasPath_loop :: "'a adjmap \<Rightarrow> 'a \<Rightarrow> 'a list \<Rightarrow> 'a set \<Rightarrow> bool" where
  "graphHasPath_loop graph end [] visited = False"
| "graphHasPath_loop graph end (current # queue) visited =
     (let r = graphHasPath_for end (find_list graph current) (visited, queue)
      in if fst r then True
         else graphHasPath_loop graph end (snd (snd r)) (fst (snd r)))"
  by pat_completeness auto
termination
proof (relation "measures [\<lambda>(graph, e, q, v). card (listed graph - v), \<lambda>(graph, e, q, v). length q]",
    goal_cases)
  case 1
  then show ?case by simp
next
  case (2 graph e current queue visited r)
  then have "snd r = (visited \<union> set (find_list graph current),
      queue @ fresh visited (find_list graph current))"
    by (simp add: graphHasPath_for_not_found enqueue_unvisited_eq)
  then show ?case
    using enqueue_measure [of "find_list graph current" "listed graph" visited,
        OF find_list_listed finite_listed]
    by auto
qed

definition graphHasPath :: "'a adjmap \<Rightarrow> 'a \<Rightarrow> 'a \<Rightarrow> bool" where
  "graphHasPath graph start end =
     (if map_of graph start = None then False
      else if start = end then True
      else graphHasPath_loop graph end [start] {start})"

text \<open>
  \<^verbatim>\<open>graphShortestPath\<close> (lines 921-971). The path is rebuilt by
  \<^verbatim>\<open>while (node != start) { path.push_back(node); node = parent[node]; }\<close>, a loop that
  depends on the parent map for its termination: it is a partial function, \<open>None\<close> when
  it does not return. Then \<open>start\<close> is appended and the vector reversed.
\<close>

partial_function (option) reconstruct_loop ::
    "'a \<Rightarrow> ('a \<rightharpoonup> 'a) \<Rightarrow> 'a \<Rightarrow> 'a \<Rightarrow> 'a list \<Rightarrow> 'a list option" where
  "reconstruct_loop dflt parent start node path =
     (if node \<noteq> start
      then reconstruct_loop dflt parent start (at_or dflt parent node) (path @ [node])
      else Some path)"

declare reconstruct_loop.simps [code]

definition reconstruct :: "'a \<Rightarrow> ('a \<rightharpoonup> 'a) \<Rightarrow> 'a \<Rightarrow> 'a \<Rightarrow> 'a list option" where
  "reconstruct dflt parent start end =
     (case reconstruct_loop dflt parent start end [] of
        None \<Rightarrow> None
      | Some path \<Rightarrow> Some (rev (path @ [start])))"

text \<open>
  The range-for of the search also records \<open>current\<close> as the parent of each node it
  enqueues.
\<close>

fun graphShortestPath_for ::
    "'a \<Rightarrow> 'a list \<Rightarrow> 'a set \<times> ('a \<rightharpoonup> 'a) \<times> 'a list \<Rightarrow> 'a set \<times> ('a \<rightharpoonup> 'a) \<times> 'a list" where
  "graphShortestPath_for current [] s = s"
| "graphShortestPath_for current (neighbor # rest) (visited, parent, queue) =
     (if neighbor \<notin> visited
      then graphShortestPath_for current rest
             (insert neighbor visited, parent(neighbor \<mapsto> current), queue @ [neighbor])
      else graphShortestPath_for current rest (visited, parent, queue))"

lemma graphShortestPath_for_eq:
  "graphShortestPath_for c ns (V, P, Q) =
     (V \<union> set ns, (\<lambda>x. if x \<in> set ns - V then Some c else P x), Q @ fresh V ns)"
  by (induction ns arbitrary: V P Q) (auto simp: fun_eq_iff)

function graphShortestPath_loop ::
    "'a \<Rightarrow> 'a adjmap \<Rightarrow> 'a \<Rightarrow> 'a \<Rightarrow> 'a list \<Rightarrow> 'a set \<Rightarrow> ('a \<rightharpoonup> 'a) \<Rightarrow> 'a list option" where
  "graphShortestPath_loop dflt graph start end [] visited parent = Some []"
| "graphShortestPath_loop dflt graph start end (current # queue) visited parent =
     (if current = end then reconstruct dflt parent start end
      else case graphShortestPath_for current (find_list graph current) (visited, parent, queue) of
             (visited', parent', queue') \<Rightarrow>
               graphShortestPath_loop dflt graph start end queue' visited' parent')"
  by pat_completeness auto
termination
proof (relation "measures [\<lambda>(dflt, graph, s, e, q, v, p). card (listed graph - v),
    \<lambda>(dflt, graph, s, e, q, v, p). length q]", goal_cases)
  case 1
  then show ?case by simp
next
  case (2 dflt graph start e current queue visited parent x y xa ya)
  then show ?case
    using enqueue_measure [of "find_list graph current" "listed graph" visited,
        OF find_list_listed finite_listed]
    by (auto simp: graphShortestPath_for_eq)
qed

definition graphShortestPath :: "'a \<Rightarrow> 'a adjmap \<Rightarrow> 'a \<Rightarrow> 'a \<Rightarrow> 'a list option" where
  "graphShortestPath dflt graph start end =
     (if map_of graph start = None then Some []
      else graphShortestPath_loop dflt graph start end [start] {start} [start \<mapsto> start])"

text \<open>
  \<^verbatim>\<open>graphCountComponents\<close> (lines 974-1011): the outer range-for over the entries of the
  mapping, and the breadth-first loop that marks what the entry's key reaches. The
  counter is a C++ \<^verbatim>\<open>int\<close>; it never exceeds the number of entries.
\<close>

function graphCountComponents_bfs :: "'a adjmap \<Rightarrow> 'a list \<Rightarrow> 'a set \<Rightarrow> 'a set" where
  "graphCountComponents_bfs graph [] visited = visited"
| "graphCountComponents_bfs graph (current # queue) visited =
     (case enqueue_unvisited (find_list graph current) (visited, queue) of
        (visited', queue') \<Rightarrow> graphCountComponents_bfs graph queue' visited')"
  by pat_completeness auto
termination
proof (relation "measures [\<lambda>(graph, q, v). card (listed graph - v), \<lambda>(graph, q, v). length q]",
    goal_cases)
  case 1
  then show ?case by simp
next
  case (2 graph current queue visited x y)
  then show ?case
    using enqueue_measure [of "find_list graph current" "listed graph" visited,
        OF find_list_listed finite_listed]
    by (auto simp: enqueue_unvisited_eq)
qed

fun graphCountComponents_loop :: "'a adjmap \<Rightarrow> ('a \<times> 'a list) list \<Rightarrow> 'a set \<Rightarrow> int \<Rightarrow> int" where
  "graphCountComponents_loop graph [] visited count = count"
| "graphCountComponents_loop graph ((vertex, nbs) # rest) visited count =
     (if vertex \<notin> visited
      then graphCountComponents_loop graph rest
             (graphCountComponents_bfs graph [vertex] (insert vertex visited)) (count + 1)
      else graphCountComponents_loop graph rest visited count)"

definition graphCountComponents :: "'a adjmap \<Rightarrow> int" where
  "graphCountComponents graph = graphCountComponents_loop graph graph {} 0"

text \<open>
  \<^verbatim>\<open>graphIsBipartite\<close> (lines 1014-1052). The colour map is also the visited test
  (\<^verbatim>\<open>color.find\<close>), so here a read \<^verbatim>\<open>color[k]\<close> of a missing key matters: it stores
  \<^verbatim>\<open>int()\<close>, that is 0, under \<open>k\<close>. The boolean of \<open>graphIsBipartite_for\<close> and of
  \<open>graphIsBipartite_bfs\<close> is false when the source executes \<^verbatim>\<open>return false\<close>.
\<close>

definition touch :: "('a \<rightharpoonup> int) \<Rightarrow> 'a \<Rightarrow> ('a \<rightharpoonup> int)" where
  "touch color k = (case color k of None \<Rightarrow> color(k \<mapsto> 0) | Some c \<Rightarrow> color)"

fun graphIsBipartite_for ::
    "'a \<Rightarrow> 'a list \<Rightarrow> ('a \<rightharpoonup> int) \<times> 'a list \<Rightarrow> bool \<times> ('a \<rightharpoonup> int) \<times> 'a list" where
  "graphIsBipartite_for current [] s = (True, s)"
| "graphIsBipartite_for current (neighbor # rest) (color, queue) =
     (if color neighbor = None
      then (let color1 = touch color current;
                color2 = color1(neighbor \<mapsto> 1 - at_or 0 color1 current)
            in graphIsBipartite_for current rest (color2, queue @ [neighbor]))
      else (let color1 = touch color current
            in if at_or 0 color1 neighbor = at_or 0 color1 current
               then (False, (color1, queue))
               else graphIsBipartite_for current rest (color1, queue)))"

lemma dom_touch: "dom (touch color k) = insert k (dom color)"
  by (auto simp: touch_def split: option.splits)

lemma graphIsBipartite_for_dom:
  "dom color \<subseteq> dom (fst (snd (graphIsBipartite_for c ns (color, queue)))) \<and>
   (snd (snd (graphIsBipartite_for c ns (color, queue))) = queue \<or>
    (\<exists>x \<in> set ns. x \<notin> dom color \<and> x \<in> dom (fst (snd (graphIsBipartite_for c ns (color, queue))))))"
proof (induction ns arbitrary: color queue)
  case Nil
  then show ?case by simp
next
  case (Cons neighbor rest)
  let ?c1 = "touch color c"
  show ?case
  proof (cases "color neighbor = None")
    case True
    let ?c2 = "?c1(neighbor \<mapsto> 1 - at_or 0 ?c1 c)"
    let ?r = "graphIsBipartite_for c rest (?c2, queue @ [neighbor])"
    have r: "graphIsBipartite_for c (neighbor # rest) (color, queue) = ?r"
      using True by (simp add: Let_def)
    have a: "dom ?c2 \<subseteq> dom (fst (snd ?r))"
      using Cons.IH [of ?c2 "queue @ [neighbor]"] by blast
    have b: "dom color \<subseteq> dom ?c2" "neighbor \<in> dom ?c2"
      by (auto simp: dom_touch)
    have n: "neighbor \<notin> dom color"
      using True by auto
    have "dom color \<subseteq> dom (fst (snd ?r))"
      using a b(1) by (rule order_trans [rotated])
    moreover have "\<exists>x \<in> set (neighbor # rest). x \<notin> dom color \<and> x \<in> dom (fst (snd ?r))"
      using a b(2) n by (intro bexI [of _ neighbor]) (blast, simp)
    ultimately show ?thesis
      unfolding r by blast
  next
    case False
    show ?thesis
    proof (cases "at_or 0 ?c1 neighbor = at_or 0 ?c1 c")
      case True
      with False show ?thesis by (auto simp: Let_def dom_touch)
    next
      case ne: False
      let ?r = "graphIsBipartite_for c rest (?c1, queue)"
      have r: "graphIsBipartite_for c (neighbor # rest) (color, queue) = ?r"
        using False ne by (auto simp: Let_def)
      have ih: "dom ?c1 \<subseteq> dom (fst (snd ?r)) \<and>
          (snd (snd ?r) = queue \<or> (\<exists>x \<in> set rest. x \<notin> dom ?c1 \<and> x \<in> dom (fst (snd ?r))))"
        by (rule Cons.IH)
      have sub: "dom color \<subseteq> dom ?c1"
        by (auto simp: dom_touch)
      have "dom color \<subseteq> dom (fst (snd ?r))"
        using ih sub by blast
      moreover have "snd (snd ?r) = queue \<or>
          (\<exists>x \<in> set (neighbor # rest). x \<notin> dom color \<and> x \<in> dom (fst (snd ?r)))"
        using ih sub by (simp only: set_simps) blast
      ultimately show ?thesis
        unfolding r by blast
    qed
  qed
qed

function graphIsBipartite_bfs :: "'a adjmap \<Rightarrow> 'a list \<Rightarrow> ('a \<rightharpoonup> int) \<Rightarrow> bool \<times> ('a \<rightharpoonup> int)" where
  "graphIsBipartite_bfs graph [] color = (True, color)"
| "graphIsBipartite_bfs graph (current # queue) color =
     (let r = graphIsBipartite_for current (find_list graph current) (color, queue)
      in if \<not> fst r then (False, fst (snd r))
         else graphIsBipartite_bfs graph (snd (snd r)) (fst (snd r)))"
  by pat_completeness auto
termination
proof (relation "measures [\<lambda>(graph, q, c). card (listed graph - dom c), \<lambda>(graph, q, c). length q]",
    goal_cases)
  case 1
  then show ?case by simp
next
  case (2 graph current queue color r)
  let ?r = "graphIsBipartite_for current (find_list graph current) (color, queue)"
  have sub: "dom color \<subseteq> dom (fst (snd ?r))"
    using graphIsBipartite_for_dom [of color current "find_list graph current" queue] by blast
  then have le: "card (listed graph - dom (fst (snd ?r))) \<le> card (listed graph - dom color)"
    by (intro card_mono) (auto simp: finite_listed)
  show ?case
  proof (cases "snd (snd ?r) = queue")
    case True
    with le 2 show ?thesis by auto
  next
    case False
    then obtain x where x: "x \<in> set (find_list graph current)" "x \<notin> dom color"
        "x \<in> dom (fst (snd ?r))"
      using graphIsBipartite_for_dom [of color current "find_list graph current" queue] by blast
    then have "x \<in> listed graph"
      using find_list_listed [of graph current] by blast
    with x sub have "listed graph - dom (fst (snd ?r)) \<subset> listed graph - dom color"
      by blast
    then have "card (listed graph - dom (fst (snd ?r))) < card (listed graph - dom color)"
      by (intro psubset_card_mono) (simp_all add: finite_listed)
    with 2 show ?thesis by simp
  qed
qed

fun graphIsBipartite_loop :: "'a adjmap \<Rightarrow> ('a \<times> 'a list) list \<Rightarrow> ('a \<rightharpoonup> int) \<Rightarrow> bool" where
  "graphIsBipartite_loop graph [] color = True"
| "graphIsBipartite_loop graph ((vertex, nbs) # rest) color =
     (if color vertex = None
      then (let r = graphIsBipartite_bfs graph [vertex] (color(vertex \<mapsto> 0))
            in if \<not> fst r then False else graphIsBipartite_loop graph rest (snd r))
      else graphIsBipartite_loop graph rest color)"

definition graphIsBipartite :: "'a adjmap \<Rightarrow> bool" where
  "graphIsBipartite graph = graphIsBipartite_loop graph graph Map.empty"

subsection \<open>Notions used in the proofs\<close>

text \<open>
  What a depth-first call achieves, from the state \<open>s\<close> before it to the state \<open>s'\<close> after
  it, when it is asked to visit the nodes \<open>A\<close>: the result grows by the newly visited
  nodes, each once; \<open>A\<close> is visited; only nodes reachable from \<open>A\<close> are new; and every
  edge from a new node leads to a visited node.
\<close>

definition dfs_post :: "('a \<times> 'a) set \<Rightarrow> 'a set \<Rightarrow> 'a set \<times> 'a list \<Rightarrow> 'a set \<times> 'a list \<Rightarrow> bool"
  where
  "dfs_post E A s s' =
     ((\<exists>new. snd s' = snd s @ new \<and> distinct new \<and> set new = fst s' - fst s) \<and>
      fst s \<union> A \<subseteq> fst s' \<and>
      fst s' \<subseteq> fst s \<union> E\<^sup>* `` A \<and>
      (\<forall>u \<in> fst s' - fst s. E `` {u} \<subseteq> fst s'))"

subsection \<open>Connected components of a mapping\<close>

text \<open>
  The notion the count is compared with, after the glossary of the specification: a
  component is a maximal set of nodes that reach each other when every edge may be walked
  in both directions. The components spanned by the keys are the components of the keys.
\<close>

definition uedges :: "'a adjmap \<Rightarrow> ('a \<times> 'a) set" where
  "uedges m = edges m \<union> (edges m)\<inverse>"

definition component :: "'a adjmap \<Rightarrow> 'a \<Rightarrow> 'a set" where
  "component m v = (uedges m)\<^sup>* `` {v}"

definition key_components :: "'a adjmap \<Rightarrow> 'a set set" where
  "key_components m = component m ` fst ` set m"

subsection \<open>Paths in a mapping, and the invariant of the shortest-path search\<close>

text \<open>
  A path is a list of nodes in which each node is listed among the neighbours of the one
  before it. The invariant \<open>sp_inv\<close> relates the queue, the visited set and the parent
  map of \<^verbatim>\<open>graphShortestPath\<close> to the set \<open>P\<close> of nodes already taken from the queue and
  to the depth \<open>lev\<close> of each visited node in the parent tree.
\<close>

fun is_path :: "'a adjmap \<Rightarrow> 'a list \<Rightarrow> bool" where
  "is_path m [] = True"
| "is_path m [v] = True"
| "is_path m (u # v # rest) = (v \<in> set (find_list m u) \<and> is_path m (v # rest))"

definition path_from_to :: "'a adjmap \<Rightarrow> 'a \<Rightarrow> 'a \<Rightarrow> 'a list \<Rightarrow> bool" where
  "path_from_to m s e p = (p \<noteq> [] \<and> hd p = s \<and> last p = e \<and> is_path m p)"

definition sp_inv ::
    "'a adjmap \<Rightarrow> 'a \<Rightarrow> ('a \<Rightarrow> nat) \<Rightarrow> 'a set \<Rightarrow> 'a list \<Rightarrow> 'a set \<Rightarrow> ('a \<rightharpoonup> 'a) \<Rightarrow> bool" where
  "sp_inv graph start lev P Q V Par =
     (V = P \<union> set Q \<and>
      start \<in> V \<and> lev start = 0 \<and>
      (\<forall>v \<in> V. v \<noteq> start \<longrightarrow>
         (\<exists>p \<in> V. Par v = Some p \<and> v \<in> set (find_list graph p) \<and> lev v = Suc (lev p))) \<and>
      sorted (map lev Q) \<and>
      (\<forall>x \<in> set Q. \<forall>y \<in> set Q. lev y \<le> Suc (lev x)) \<and>
      (\<forall>u \<in> P. \<forall>q \<in> set Q. lev u \<le> lev q) \<and>
      (\<forall>u \<in> P. \<forall>w \<in> set (find_list graph u). w \<in> V \<and> lev w \<le> Suc (lev u)))"

section \<open>Properties of the model\<close>

subsection \<open>Lemmas on the containers\<close>

lemma find_list_update:
  "find_list (AList.update k v m) x = (if x = k then v else find_list m x)"
  by (simp add: find_list_def update_conv')

lemma find_list_push_back_at:
  "find_list (push_back_at m k v) x = (if x = k then find_list m k @ [v] else find_list m x)"
  by (simp add: push_back_at_def find_list_update)

lemma keys_push_back_at: "fst ` set (push_back_at m k v) = insert k (fst ` set m)"
  by (simp add: push_back_at_def dom_update)

lemma scan_bonds_iff:
  "scan_bonds bs f t ty \<longleftrightarrow> (\<exists>b \<in> set bs. b_from b = f \<and> b_to b = t \<and> b_type b = ty)"
  by (induction bs) auto

lemma addAtom_present: "atom \<in> set (atoms g) \<Longrightarrow> addAtom g atom = g"
  by (simp add: addAtom_def)

lemma atoms_addAtom: "set (atoms (addAtom g atom)) = insert atom (set (atoms g))"
  by (auto simp: addAtom_def Let_def)

lemma bonds_addAtom: "bonds (addAtom g atom) = bonds g"
  by (simp add: addAtom_def Let_def)

lemma neighbors_addAtom: "neighbors (addAtom g atom) x = neighbors g x"
  by (auto simp: addAtom_def Let_def neighbors_def find_list_def update_conv')

lemma keys_addAtom:
  "fst ` set (adjacency g) \<subseteq> fst ` set (adjacency (addAtom g atom))"
  by (auto simp: addAtom_def Let_def dom_update)

lemma key_addAtom_new:
  "atom \<notin> set (atoms g) \<Longrightarrow> atom \<in> fst ` set (adjacency (addAtom g atom))"
  by (auto simp: addAtom_def Let_def dom_update map_of_eq_None_iff)

lemma Molecule_inv_addAtom:
  assumes "Molecule_inv g"
  shows "Molecule_inv (addAtom g atom)"
proof (cases "atom \<in> set (atoms g)")
  case True
  then show ?thesis using assms by (simp add: addAtom_present)
next
  case False
  let ?g' = "addAtom g atom"
  have sub: "set (atoms g) \<subseteq> set (atoms ?g')"
    by (auto simp: atoms_addAtom)
  have c1: "\<forall>b \<in> set (bonds ?g'). b_from b \<in> set (atoms ?g') \<and> b_to b \<in> set (atoms ?g')"
    using assms sub by (auto simp: Molecule_inv_def bonds_addAtom)
  have c2: "distinct (atoms ?g')"
    using assms False by (simp add: addAtom_def Let_def Molecule_inv_def)
  have "set (atoms g) \<subseteq> fst ` set (adjacency ?g')"
    using assms keys_addAtom [of g atom] by (auto simp: Molecule_inv_def)
  then have c3: "set (atoms ?g') \<subseteq> fst ` set (adjacency ?g')"
    using key_addAtom_new [OF False] by (simp add: atoms_addAtom)
  have c4: "\<forall>b \<in> set (bonds ?g'). b_to b \<in> set (neighbors ?g' (b_from b)) \<and>
      (b_type b \<noteq> ARROW \<longrightarrow> b_from b \<in> set (neighbors ?g' (b_to b)))"
    using assms by (simp add: Molecule_inv_def bonds_addAtom neighbors_addAtom)
  show ?thesis
    unfolding Molecule_inv_def by (intro conjI) (rule c1, rule c2, rule c3, rule c4)
qed

lemma addBond_duplicate:
  "scan_bonds (bonds g) f t ty \<Longrightarrow> addBond g f t ty = addAtom (addAtom g f) t"
  by (simp add: addBond_def Let_def bonds_addAtom)

lemma addBond_fresh:
  assumes "\<not> scan_bonds (bonds g) f t ty"
  shows "addBond g f t ty =
     (let g1 = addAtom (addAtom g f) t;
          adj1 = push_back_at (adjacency g1) f t
      in g1\<lparr>bonds := bonds g @ [\<lparr>b_from = f, b_to = t, b_type = ty\<rparr>],
            adjacency := (if ty = ARROW then adj1 else push_back_at adj1 t f)\<rparr>)"
  using assms by (cases ty) (simp_all add: addBond_def Let_def bonds_addAtom)

lemma neighbors_addBond_fresh:
  assumes "\<not> scan_bonds (bonds g) f t ty"
  shows "neighbors (addBond g f t ty) x =
     neighbors g x @ (if x = f then [t] else []) @ (if x = t \<and> ty \<noteq> ARROW then [f] else [])"
proof -
  have "neighbors (addAtom (addAtom g a) b) y = neighbors g y" for a b y
    by (simp add: neighbors_addAtom)
  then have nb1: "find_list (adjacency (addAtom (addAtom g a) b)) y = find_list (adjacency g) y"
    for a b y by (simp add: neighbors_def)
  show ?thesis
    by (simp add: addBond_fresh [OF assms] Let_def neighbors_def find_list_push_back_at nb1)
qed

lemma Molecule_inv_addBond:
  assumes "Molecule_inv g"
  shows "Molecule_inv (addBond g f t ty)"
proof -
  let ?g1 = "addAtom (addAtom g f) t"
  have inv1: "Molecule_inv ?g1"
    using assms by (simp add: Molecule_inv_addAtom)
  show ?thesis
  proof (cases "scan_bonds (bonds g) f t ty")
    case True
    then show ?thesis using inv1 by (simp add: addBond_duplicate)
  next
    case False
    let ?g' = "addBond g f t ty"
    have at: "atoms ?g' = atoms ?g1"
      by (simp add: addBond_fresh [OF False] Let_def)
    have bo: "bonds ?g' = bonds g @ [\<lparr>b_from = f, b_to = t, b_type = ty\<rparr>]"
      by (simp add: addBond_fresh [OF False] Let_def)
    have ft: "f \<in> set (atoms ?g1)" "t \<in> set (atoms ?g1)"
      by (simp_all add: atoms_addAtom)
    have sub: "set (atoms g) \<subseteq> set (atoms ?g1)"
      by (auto simp: atoms_addAtom)
    have nb: "\<And>x. set (neighbors g x) \<subseteq> set (neighbors ?g' x)"
      by (simp add: neighbors_addBond_fresh [OF False])
    have keys: "set (atoms ?g1) \<subseteq> fst ` set (adjacency ?g')"
      using inv1
      by (auto simp: addBond_fresh [OF False] Let_def Molecule_inv_def keys_push_back_at)
    have old: "\<forall>b \<in> set (bonds g). b_from b \<in> set (atoms ?g1) \<and> b_to b \<in> set (atoms ?g1) \<and>
        b_to b \<in> set (neighbors ?g' (b_from b)) \<and>
        (b_type b \<noteq> ARROW \<longrightarrow> b_from b \<in> set (neighbors ?g' (b_to b)))"
      using assms sub nb unfolding Molecule_inv_def by blast
    have new: "t \<in> set (neighbors ?g' f)" "ty \<noteq> ARROW \<longrightarrow> f \<in> set (neighbors ?g' t)"
      by (simp_all add: neighbors_addBond_fresh [OF False])
    have d: "distinct (atoms ?g1)"
      using inv1 by (simp add: Molecule_inv_def)
    let ?nb = "\<lparr>b_from = f, b_to = t, b_type = ty\<rparr>"
    have c1: "\<forall>b \<in> set (bonds g @ [?nb]).
        b_from b \<in> set (atoms ?g1) \<and> b_to b \<in> set (atoms ?g1)"
      using old ft by simp
    have c4: "\<forall>b \<in> set (bonds g @ [?nb]). b_to b \<in> set (neighbors ?g' (b_from b)) \<and>
        (b_type b \<noteq> ARROW \<longrightarrow> b_from b \<in> set (neighbors ?g' (b_to b)))"
      using old new by simp
    show ?thesis
      unfolding Molecule_inv_def at bo
      by (intro conjI) (rule c1, rule d, rule keys, rule c4)
  qed
qed

lemma Molecule_inv_clear: "Molecule_inv (clear g)"
  by (simp add: Molecule_inv_def clear_def)

lemma Molecule_inv_init: "Molecule_inv Molecule_init"
  by (simp add: Molecule_inv_def Molecule_init_def)

lemma built_inv: "built g \<Longrightarrow> Molecule_inv g"
  by (induction rule: built.induct)
     (simp_all add: Molecule_inv_init Molecule_inv_addAtom Molecule_inv_addBond Molecule_inv_clear)

lemma bonds_addBond:
  "bonds (addBond g f t ty) =
     (if scan_bonds (bonds g) f t ty then bonds g
      else bonds g @ [\<lparr>b_from = f, b_to = t, b_type = ty\<rparr>])"
  by (simp add: addBond_duplicate addBond_fresh Let_def bonds_addAtom)

lemma addBond_present:
  assumes "Molecule_inv g" and "scan_bonds (bonds g) f t ty"
  shows "addBond g f t ty = g"
proof -
  from assms(2) obtain b where "b \<in> set (bonds g)" "b_from b = f" "b_to b = t"
    by (auto simp: scan_bonds_iff)
  with assms(1) have "f \<in> set (atoms g)" "t \<in> set (atoms g)"
    by (auto simp: Molecule_inv_def)
  then show ?thesis
    by (simp add: addBond_duplicate [OF assms(2)] addAtom_present)
qed

subsection \<open>The traversals visit what is reachable\<close>

lemma edges_Image: "edges m `` {u} = set (find_list m u)"
  by (auto simp: edges_def)

lemma rtrancl_Image_absorb:
  assumes "V \<subseteq> V'" and "V' \<subseteq> r\<^sup>* `` V"
  shows "r\<^sup>* `` V' = r\<^sup>* `` V"
proof
  show "r\<^sup>* `` V' \<subseteq> r\<^sup>* `` V"
  proof
    fix y assume "y \<in> r\<^sup>* `` V'"
    then obtain x where x: "x \<in> V'" "(x, y) \<in> r\<^sup>*" by blast
    with assms(2) obtain w where w: "w \<in> V" "(w, x) \<in> r\<^sup>*" by blast
    from w(2) x(2) have "(w, y) \<in> r\<^sup>*" by (rule rtrancl_trans)
    with w(1) show "y \<in> r\<^sup>* `` V" by blast
  qed
  show "r\<^sup>* `` V \<subseteq> r\<^sup>* `` V'"
    using assms(1) by blast
qed

lemma bfs_step_reach:
  assumes "current \<in> V"
  shows "(edges m)\<^sup>* `` (V \<union> set (find_list m current)) = (edges m)\<^sup>* `` V"
proof (rule rtrancl_Image_absorb)
  show "V \<subseteq> V \<union> set (find_list m current)" by blast
  have "set (find_list m current) \<subseteq> (edges m)\<^sup>* `` V"
    using assms by (auto simp: edges_def)
  then show "V \<union> set (find_list m current) \<subseteq> (edges m)\<^sup>* `` V" by blast
qed

lemma hasPath_loop_correct:
  assumes "V = P \<union> set Q" and "edges (adjacency g) `` P \<subseteq> V" and "to \<notin> P"
  shows "hasPath_loop g to Q V \<longleftrightarrow> to \<in> (edges (adjacency g))\<^sup>* `` V"
  using assms
proof (induction g to Q V arbitrary: P rule: hasPath_loop.induct)
  case (1 g to visited)
  then have "(edges (adjacency g))\<^sup>* `` visited = visited"
    by (simp add: Image_closed_trancl)
  with 1 show ?case by simp
next
  case (2 g to current queue visited)
  let ?E = "edges (adjacency g)"
  let ?ns = "find_list (adjacency g) current"
  show ?case
  proof (cases "current = to")
    case True
    with 2(2) show ?thesis by auto
  next
    case False
    let ?V' = "visited \<union> set ?ns"
    let ?Q' = "queue @ fresh visited ?ns"
    have a: "?V' = insert current P \<union> set ?Q'"
      using 2(2) by (auto simp: set_fresh)
    have b: "?E `` insert current P \<subseteq> ?V'"
      using 2(3) by (auto simp: edges_def)
    have c: "to \<notin> insert current P"
      using False 2(4) by simp
    have "hasPath_loop g to ?Q' ?V' \<longleftrightarrow> to \<in> ?E\<^sup>* `` ?V'"
      by (rule 2(1) [OF False _ a b c]) (simp add: enqueue_unvisited_eq neighbors_def)
    moreover have "?E\<^sup>* `` ?V' = ?E\<^sup>* `` visited"
      using 2(2) by (intro bfs_step_reach) simp
    ultimately show ?thesis
      using False by (simp add: enqueue_unvisited_eq neighbors_def)
  qed
qed

lemma bfs_loop_correct:
  assumes "V = set R \<union> set Q" and "edges (adjacency g) `` set R \<subseteq> V" and "distinct (R @ Q)"
  shows "set (bfs_loop g Q V R) = (edges (adjacency g))\<^sup>* `` V \<and> distinct (bfs_loop g Q V R)"
  using assms
proof (induction g Q V R rule: bfs_loop.induct)
  case (1 g visited result)
  then have "(edges (adjacency g))\<^sup>* `` visited = visited"
    by (simp add: Image_closed_trancl)
  with 1 show ?case by simp
next
  case (2 g current queue visited result)
  let ?E = "edges (adjacency g)"
  let ?ns = "find_list (adjacency g) current"
  let ?V' = "visited \<union> set ?ns"
  let ?Q' = "queue @ fresh visited ?ns"
  let ?R' = "result @ [current]"
  have a: "?V' = set ?R' \<union> set ?Q'"
    using 2(2) by (auto simp: set_fresh)
  have b: "?E `` set ?R' \<subseteq> ?V'"
    using 2(3) by (auto simp: edges_def)
  have c: "distinct (?R' @ ?Q')"
    using 2(2,4) by (auto simp: set_fresh distinct_fresh)
  have "set (bfs_loop g ?Q' ?V' ?R') = ?E\<^sup>* `` ?V' \<and> distinct (bfs_loop g ?Q' ?V' ?R')"
    by (rule 2(1) [OF _ a b c]) (simp add: enqueue_unvisited_eq neighbors_def)
  moreover have "?E\<^sup>* `` ?V' = ?E\<^sup>* `` visited"
    using 2(2) by (intro bfs_step_reach) simp
  ultimately show ?case
    by (simp add: enqueue_unvisited_eq neighbors_def)
qed

lemma bfs_reach:
  assumes "hasAtom g start"
  shows "set (bfs g start) = (edges (adjacency g))\<^sup>* `` {start}" and "distinct (bfs g start)"
  using assms bfs_loop_correct [of "{start}" "[]" "[start]" g] by (simp_all add: bfs_def)

lemma dfs_post_refl: "A \<subseteq> fst s \<Longrightarrow> dfs_post E A s s"
  by (auto simp: dfs_post_def)

lemma dfs_post_node:
  assumes "node \<notin> V" and "dfs_post E (E `` {node}) (insert node V, R @ [node]) s'"
  shows "dfs_post E {node} (V, R) s'"
proof -
  from assms(2) obtain new where new: "snd s' = (R @ [node]) @ new" "distinct new"
    "set new = fst s' - insert node V"
    and sub: "insert node V \<union> E `` {node} \<subseteq> fst s'"
    and up: "fst s' \<subseteq> insert node V \<union> E\<^sup>* `` (E `` {node})"
    and cl: "\<forall>u \<in> fst s' - insert node V. E `` {u} \<subseteq> fst s'"
    unfolding dfs_post_def fst_conv snd_conv by blast
  have r: "snd s' = R @ (node # new)" "distinct (node # new)" "set (node # new) = fst s' - V"
    using new sub assms(1) by auto
  have "E\<^sup>* `` (E `` {node}) \<subseteq> E\<^sup>* `` {node}"
    by (auto intro: converse_rtrancl_into_rtrancl)
  with up have up': "fst s' \<subseteq> V \<union> E\<^sup>* `` {node}" by auto
  have cl': "\<forall>u \<in> fst s' - V. E `` {u} \<subseteq> fst s'"
    using cl sub by blast
  show ?thesis
    unfolding dfs_post_def fst_conv snd_conv using r sub up' cl' by blast
qed

lemma dfs_post_seq:
  assumes "dfs_post E {n} s s1" and "dfs_post E (set rest) s1 s2"
  shows "dfs_post E (set (n # rest)) s s2"
proof -
  from assms(1) obtain new1 where new1: "snd s1 = snd s @ new1" "distinct new1"
    "set new1 = fst s1 - fst s"
    and sub1: "fst s \<union> {n} \<subseteq> fst s1"
    and up1: "fst s1 \<subseteq> fst s \<union> E\<^sup>* `` {n}"
    and cl1: "\<forall>u \<in> fst s1 - fst s. E `` {u} \<subseteq> fst s1"
    unfolding dfs_post_def by blast
  from assms(2) obtain new2 where new2: "snd s2 = snd s1 @ new2" "distinct new2"
    "set new2 = fst s2 - fst s1"
    and sub2: "fst s1 \<union> set rest \<subseteq> fst s2"
    and up2: "fst s2 \<subseteq> fst s1 \<union> E\<^sup>* `` set rest"
    and cl2: "\<forall>u \<in> fst s2 - fst s1. E `` {u} \<subseteq> fst s2"
    unfolding dfs_post_def by blast
  have r: "snd s2 = snd s @ (new1 @ new2)" "distinct (new1 @ new2)"
    "set (new1 @ new2) = fst s2 - fst s"
    using new1 new2 sub1 sub2 by auto
  have sub: "fst s \<union> set (n # rest) \<subseteq> fst s2"
    using sub1 sub2 by auto
  have up: "fst s2 \<subseteq> fst s \<union> E\<^sup>* `` set (n # rest)"
    using up1 up2 by auto
  have cl: "\<forall>u \<in> fst s2 - fst s. E `` {u} \<subseteq> fst s2"
    using cl1 cl2 sub2 by blast
  show ?thesis
    unfolding dfs_post_def using r sub up cl by blast
qed

lemma dfs_post_skip:
  assumes "n \<in> fst s" and "dfs_post E (set rest) s s2"
  shows "dfs_post E (set (n # rest)) s s2"
  using assms unfolding dfs_post_def by auto

lemma dfsHelper_post:
  "fst s = V \<Longrightarrow> node \<notin> V \<Longrightarrow>
     dfs_post (edges (adjacency g)) {node} s (dfsHelper g node s)"
  "dfs_post (edges (adjacency g)) (set ns) s (dfsHelper_for g ns s)"
proof (induction g node s and g ns s arbitrary: V rule: dfsHelper_dfsHelper_for.induct)
  case (1 g node visited result)
  have "dfs_post (edges (adjacency g)) (edges (adjacency g) `` {node})
      (insert node visited, result @ [node])
      (dfsHelper_for g (neighbors g node) (insert node visited, result @ [node]))"
    using 1(1) by (simp add: edges_Image neighbors_def)
  then show ?case
    using 1(2,3) by (simp add: dfs_post_node)
next
  case (2 g s)
  then show ?case by (simp add: dfs_post_refl)
next
  case (3 g neighbor rest visited result)
  show ?case
  proof (cases "neighbor \<in> visited")
    case True
    have "dfs_post (edges (adjacency g)) (set (neighbor # rest)) (visited, result)
        (dfsHelper_for g rest (visited, result))"
      using True 3(3) by (intro dfs_post_skip) simp_all
    then show ?thesis
      using True by simp
  next
    case False
    have a: "dfs_post (edges (adjacency g)) {neighbor} (visited, result)
        (dfsHelper g neighbor (visited, result))"
      using 3(1) [OF False] False by simp
    have b: "dfs_post (edges (adjacency g)) (set rest) (dfsHelper g neighbor (visited, result))
        (dfsHelper_for g rest (dfsHelper g neighbor (visited, result)))"
      using 3(2) [OF False] by simp
    show ?thesis
      using dfs_post_seq [OF a b] False by simp
  qed
qed

lemma dfs_reach:
  assumes "hasAtom g start"
  shows "set (dfs g start) = (edges (adjacency g))\<^sup>* `` {start}" and "distinct (dfs g start)"
proof -
  let ?E = "edges (adjacency g)"
  let ?s' = "dfsHelper g start ({}, [])"
  have "dfs_post ?E {start} ({}, []) ?s'"
    using dfsHelper_post(1) [of "({}, [])" "{}" start g] by simp
  then obtain new where new: "snd ?s' = new" "distinct new" "set new = fst ?s'"
    and sub: "start \<in> fst ?s'"
    and up: "fst ?s' \<subseteq> ?E\<^sup>* `` {start}"
    and cl: "\<forall>u \<in> fst ?s'. ?E `` {u} \<subseteq> fst ?s'"
    unfolding dfs_post_def by auto
  from cl have "?E `` fst ?s' \<subseteq> fst ?s'" by blast
  then have "?E\<^sup>* `` fst ?s' = fst ?s'" by (rule Image_closed_trancl)
  moreover have "?E\<^sup>* `` {start} \<subseteq> ?E\<^sup>* `` fst ?s'"
    using sub by blast
  ultimately have "fst ?s' = ?E\<^sup>* `` {start}"
    using up by blast
  with new assms show "set (dfs g start) = ?E\<^sup>* `` {start}" "distinct (dfs g start)"
    by (simp_all add: dfs_def)
qed

subsection \<open>Counting components\<close>

lemma graphCountComponents_bfs_correct:
  assumes "V = P \<union> set Q" and "edges graph `` P \<subseteq> V"
  shows "graphCountComponents_bfs graph Q V = (edges graph)\<^sup>* `` V"
  using assms
proof (induction graph Q V arbitrary: P rule: graphCountComponents_bfs.induct)
  case (1 graph visited)
  then show ?case by (simp add: Image_closed_trancl)
next
  case (2 graph current queue visited)
  let ?E = "edges graph"
  let ?ns = "find_list graph current"
  let ?V' = "visited \<union> set ?ns"
  let ?Q' = "queue @ fresh visited ?ns"
  have a: "?V' = insert current P \<union> set ?Q'"
    using 2(2) by (auto simp: set_fresh)
  have b: "?E `` insert current P \<subseteq> ?V'"
    using 2(3) by (auto simp: edges_def)
  have "graphCountComponents_bfs graph ?Q' ?V' = ?E\<^sup>* `` ?V'"
    by (rule 2(1) [OF _ a b]) (simp add: enqueue_unvisited_eq)
  moreover have "?E\<^sup>* `` ?V' = ?E\<^sup>* `` visited"
    using 2(2) by (intro bfs_step_reach) simp
  ultimately show ?case
    by (simp add: enqueue_unvisited_eq)
qed

lemma rtrancl_Image_closed: "r `` (r\<^sup>* `` S) \<subseteq> r\<^sup>* `` S"
  by (auto intro: rtrancl_into_rtrancl)

lemma rtrancl_Image_idem: "r\<^sup>* `` (r\<^sup>* `` S) = r\<^sup>* `` S"
  by (rule Image_closed_trancl) (rule rtrancl_Image_closed)

lemma graphCountComponents_bfs_root:
  assumes "V = (edges graph)\<^sup>* `` S"
  shows "graphCountComponents_bfs graph [k] (insert k V) = (edges graph)\<^sup>* `` insert k S"
proof -
  let ?E = "edges graph"
  have "graphCountComponents_bfs graph [k] (insert k V) = ?E\<^sup>* `` insert k V"
    using assms by (intro graphCountComponents_bfs_correct [of _ V]) (auto intro: rtrancl_into_rtrancl)
  also have "\<dots> = ?E\<^sup>* `` {k} \<union> ?E\<^sup>* `` V" by blast
  also have "?E\<^sup>* `` V = ?E\<^sup>* `` S"
    unfolding assms by (rule rtrancl_Image_idem)
  finally show ?thesis by blast
qed

lemma sym_rtrancl_class:
  assumes "sym (r\<^sup>*)" and "(a, b) \<in> r\<^sup>*"
  shows "r\<^sup>* `` {a} = r\<^sup>* `` {b}"
proof -
  from assms have ba: "(b, a) \<in> r\<^sup>*" by (simp add: symD)
  show ?thesis
  proof (intro equalityI subsetI)
    fix x assume "x \<in> r\<^sup>* `` {a}"
    then have "(a, x) \<in> r\<^sup>*" by simp
    with ba have "(b, x) \<in> r\<^sup>*" by (rule rtrancl_trans)
    then show "x \<in> r\<^sup>* `` {b}" by simp
  next
    fix x assume "x \<in> r\<^sup>* `` {b}"
    then have "(b, x) \<in> r\<^sup>*" by simp
    with assms(2) have "(a, x) \<in> r\<^sup>*" by (rule rtrancl_trans)
    then show "x \<in> r\<^sup>* `` {a}" by simp
  qed
qed

lemma graphCountComponents_loop_sym:
  assumes "sym ((edges graph)\<^sup>*)" and "finite S" and "V = (edges graph)\<^sup>* `` S"
    and "count = int (card ((\<lambda>k. (edges graph)\<^sup>* `` {k}) ` S))"
  shows "graphCountComponents_loop graph entries V count =
     int (card ((\<lambda>k. (edges graph)\<^sup>* `` {k}) ` (S \<union> fst ` set entries)))"
  using assms(2-)
proof (induction entries arbitrary: S V count)
  case Nil
  then show ?case by simp
next
  case (Cons e rest)
  obtain vertex nbs where e: "e = (vertex, nbs)" by (cases e)
  let ?R = "(edges graph)\<^sup>*"
  let ?cls = "\<lambda>k. ?R `` {k}"
  show ?case
  proof (cases "vertex \<in> V")
    case True
    then obtain s where s: "s \<in> S" "(s, vertex) \<in> ?R"
      using Cons.prems(2) by blast
    then have cl: "?cls vertex = ?cls s"
      using sym_rtrancl_class [OF assms(1), of s vertex] by simp
    then have img: "?cls ` insert vertex S = ?cls ` S"
      using s(1) by auto
    have "V = ?R `` insert vertex S"
      using Cons.prems(2) cl s(1) by blast
    moreover have "count = int (card (?cls ` insert vertex S))"
      using Cons.prems(3) img by simp
    ultimately have "graphCountComponents_loop graph rest V count =
        int (card (?cls ` (insert vertex S \<union> fst ` set rest)))"
      using Cons.prems(1) by (intro Cons.IH) simp_all
    then show ?thesis
      using True e by simp
  next
    case False
    let ?V' = "graphCountComponents_bfs graph [vertex] (insert vertex V)"
    have v': "?V' = ?R `` insert vertex S"
      using Cons.prems(2) by (rule graphCountComponents_bfs_root)
    have "?cls vertex \<notin> ?cls ` S"
    proof
      assume "?cls vertex \<in> ?cls ` S"
      then obtain s where "s \<in> S" "?cls vertex = ?cls s" by blast
      then have "vertex \<in> ?R `` S" by blast
      with False Cons.prems(2) show False by simp
    qed
    then have "card (?cls ` insert vertex S) = Suc (card (?cls ` S))"
      using Cons.prems(1) by simp
    then have c': "count + 1 = int (card (?cls ` insert vertex S))"
      using Cons.prems(3) by simp
    have "graphCountComponents_loop graph rest ?V' (count + 1) =
        int (card (?cls ` (insert vertex S \<union> fst ` set rest)))"
      using Cons.prems(1) v' c' by (intro Cons.IH) simp_all
    then show ?thesis
      using False e by simp
  qed
qed

lemma sym_rtrancl_uedges:
  assumes "sym ((edges m)\<^sup>*)"
  shows "(uedges m)\<^sup>* = (edges m)\<^sup>*"
proof
  have "(edges m)\<inverse> \<subseteq> (edges m)\<^sup>*"
    using assms by (auto dest: symD)
  then have "uedges m \<subseteq> (edges m)\<^sup>*"
    by (auto simp: uedges_def)
  then have "(uedges m)\<^sup>* \<subseteq> ((edges m)\<^sup>*)\<^sup>*"
    by (rule rtrancl_mono)
  then show "(uedges m)\<^sup>* \<subseteq> (edges m)\<^sup>*" by simp
  show "(edges m)\<^sup>* \<subseteq> (uedges m)\<^sup>*"
    by (rule rtrancl_mono) (simp add: uedges_def)
qed

lemma graphCountComponents_sym:
  assumes "sym ((edges m)\<^sup>*)"
  shows "graphCountComponents m = int (card (key_components m))"
proof -
  have "graphCountComponents m =
      int (card ((\<lambda>k. (edges m)\<^sup>* `` {k}) ` ({} \<union> fst ` set m)))"
    unfolding graphCountComponents_def
    by (rule graphCountComponents_loop_sym [OF assms]) simp_all
  then show ?thesis
    by (simp add: key_components_def component_def sym_rtrancl_uedges [OF assms] image_image)
qed

lemma graphCountComponents_bfs_mono: "V \<subseteq> graphCountComponents_bfs graph Q V"
proof (induction graph Q V rule: graphCountComponents_bfs.induct)
  case (1 graph visited)
  then show ?case by simp
next
  case (2 graph current queue visited)
  have "visited \<union> set (find_list graph current) \<subseteq>
      graphCountComponents_bfs graph (queue @ fresh visited (find_list graph current))
        (visited \<union> set (find_list graph current))"
    by (rule 2) (simp add: enqueue_unvisited_eq)
  then show ?case
    by (simp add: enqueue_unvisited_eq)
qed

lemma graphCountComponents_loop_bound:
  "graphCountComponents_loop graph entries V count \<le> count + int (card (fst ` set entries - V))"
proof (induction entries arbitrary: V count)
  case Nil
  then show ?case by simp
next
  case (Cons e rest)
  obtain vertex nbs where e: "e = (vertex, nbs)" by (cases e)
  show ?case
  proof (cases "vertex \<in> V")
    case True
    then have "fst ` set (e # rest) - V = fst ` set rest - V"
      using e by auto
    then show ?thesis
      using True e Cons.IH [of V count] by simp
  next
    case False
    let ?V' = "graphCountComponents_bfs graph [vertex] (insert vertex V)"
    have sub: "insert vertex V \<subseteq> ?V'"
      by (rule graphCountComponents_bfs_mono)
    have fin: "finite (fst ` set rest - V)" by simp
    have "fst ` set rest - ?V' \<subseteq> fst ` set rest - insert vertex V"
      using sub by blast
    then have "card (fst ` set rest - ?V') \<le> card (fst ` set rest - insert vertex V)"
      by (intro card_mono) simp_all
    moreover have "fst ` set (e # rest) - V = insert vertex (fst ` set rest - insert vertex V)"
      using False e by auto
    then have "card (fst ` set (e # rest) - V) = Suc (card (fst ` set rest - insert vertex V))"
      by simp
    ultimately show ?thesis
      using False e Cons.IH [of ?V' "count + 1"] by simp
  qed
qed

lemma graphCountComponents_bound: "graphCountComponents m \<le> int (card (fst ` set m))"
  using graphCountComponents_loop_bound [of m m "{}" 0] by (simp add: graphCountComponents_def)

subsection \<open>Shortest paths\<close>

lemma is_path_snoc:
  "is_path m (xs @ [v]) \<longleftrightarrow> xs = [] \<or> (is_path m xs \<and> v \<in> set (find_list m (last xs)))"
  by (induction m xs rule: is_path.induct) auto

lemma sp_inv_init: "sp_inv graph start (\<lambda>x. 0) {} [start] {start} Par"
  by (simp add: sp_inv_def)

lemma sp_inv_step:
  assumes inv: "sp_inv graph start lev P (u # queue) V Par"
  defines "ns \<equiv> find_list graph u"
  defines "lev' \<equiv> \<lambda>x. if x \<in> set ns - V then Suc (lev u) else lev x"
  defines "Par' \<equiv> \<lambda>x. if x \<in> set ns - V then Some u else Par x"
  shows "sp_inv graph start lev' (insert u P) (queue @ fresh V ns) (V \<union> set ns) Par'"
proof -
  from inv have V: "V = P \<union> set (u # queue)"
    and st: "start \<in> V" "lev start = 0"
    and par: "\<forall>v \<in> V. v \<noteq> start \<longrightarrow>
         (\<exists>p \<in> V. Par v = Some p \<and> v \<in> set (find_list graph p) \<and> lev v = Suc (lev p))"
    and srt: "sorted (map lev (u # queue))"
    and spr: "\<forall>x \<in> set (u # queue). \<forall>y \<in> set (u # queue). lev y \<le> Suc (lev x)"
    and pq: "\<forall>w \<in> P. \<forall>q \<in> set (u # queue). lev w \<le> lev q"
    and cl: "\<forall>w \<in> P. \<forall>x \<in> set (find_list graph w). x \<in> V \<and> lev x \<le> Suc (lev w)"
    unfolding sp_inv_def by blast+
  have uV: "u \<in> V" using V by simp
  have old: "lev' x = lev x" "Par' x = Par x" if "x \<in> V" for x
    using that by (simp_all add: lev'_def Par'_def)
  have new: "lev' x = Suc (lev u)" "Par' x = Some u" if "x \<in> set ns" "x \<notin> V" for x
    using that by (simp_all add: lev'_def Par'_def)
  have fr: "set (fresh V ns) = set ns - V" by (rule set_fresh)
  have qle: "lev u \<le> lev q" if "q \<in> set queue" for q
    using srt that by auto
  have c1: "V \<union> set ns = insert u P \<union> set (queue @ fresh V ns)"
  proof -
    have "set (queue @ fresh V ns) = set queue \<union> (set ns - V)"
      by (simp add: fr)
    moreover have "V = insert u (P \<union> set queue)"
      using V by simp
    ultimately show ?thesis by blast
  qed
  have c2: "start \<in> V \<union> set ns" "lev' start = 0"
    using st by (simp_all add: old)
  have c3: "\<forall>v \<in> V \<union> set ns. v \<noteq> start \<longrightarrow>
      (\<exists>p \<in> V \<union> set ns. Par' v = Some p \<and> v \<in> set (find_list graph p) \<and> lev' v = Suc (lev' p))"
  proof (intro ballI impI)
    fix v assume v: "v \<in> V \<union> set ns" "v \<noteq> start"
    show "\<exists>p \<in> V \<union> set ns. Par' v = Some p \<and> v \<in> set (find_list graph p) \<and> lev' v = Suc (lev' p)"
    proof (cases "v \<in> V")
      case True
      with par v(2) obtain p where "p \<in> V" "Par v = Some p" "v \<in> set (find_list graph p)"
        "lev v = Suc (lev p)" by blast
      with True show ?thesis
        by (intro bexI [of _ p]) (simp_all add: old)
    next
      case False
      with v(1) have "v \<in> set ns" by simp
      with False uV show ?thesis
        by (intro bexI [of _ u]) (simp_all add: new old ns_def)
    qed
  qed
  have lq: "lev' q = lev q" if "q \<in> set queue" for q
    using that V by (simp add: old)
  have lf: "lev' x = Suc (lev u)" if "x \<in> set (fresh V ns)" for x
    using that by (simp add: fr new)
  have mq: "map lev' queue = map lev queue"
    by (simp add: lq)
  have mf: "map lev' (fresh V ns) = map (\<lambda>x. Suc (lev u)) (fresh V ns)"
    by (simp add: lf)
  have c4: "sorted (map lev' (queue @ fresh V ns))"
  proof -
    have "sorted (map lev queue)" using srt by simp
    moreover have "sorted (map (\<lambda>x. Suc (lev u)) (fresh V ns))"
      by (simp add: sorted_wrt_iff_nth_less sorted_map)
    moreover have "\<forall>x \<in> set (map lev queue). \<forall>y \<in> set (map (\<lambda>x. Suc (lev u)) (fresh V ns)). x \<le> y"
      using spr by auto
    ultimately show ?thesis
      by (simp add: mq mf sorted_append)
  qed
  have c5: "\<forall>x \<in> set (queue @ fresh V ns). \<forall>y \<in> set (queue @ fresh V ns). lev' y \<le> Suc (lev' x)"
  proof (intro ballI)
    fix x y assume "x \<in> set (queue @ fresh V ns)" "y \<in> set (queue @ fresh V ns)"
    then consider "x \<in> set queue" "y \<in> set queue" | "x \<in> set queue" "y \<in> set (fresh V ns)"
      | "x \<in> set (fresh V ns)" "y \<in> set queue" | "x \<in> set (fresh V ns)" "y \<in> set (fresh V ns)"
      by auto
    then show "lev' y \<le> Suc (lev' x)"
    proof cases
      case 1
      then show ?thesis using spr by (simp add: lq)
    next
      case 2
      then show ?thesis using qle [of x] by (simp add: lq lf)
    next
      case 3
      have "lev y \<le> Suc (lev u)" using spr 3(2) by simp
      with 3 show ?thesis by (simp add: lq lf)
    next
      case 4
      then show ?thesis by (simp add: lf)
    qed
  qed
  have lP: "lev' w = lev w" if "w \<in> insert u P" for w
    using that V by (auto simp: old)
  have c6: "\<forall>w \<in> insert u P. \<forall>q \<in> set (queue @ fresh V ns). lev' w \<le> lev' q"
  proof (intro ballI)
    fix w q assume w: "w \<in> insert u P" and q: "q \<in> set (queue @ fresh V ns)"
    have wu: "lev w \<le> lev u"
      using w pq by auto
    show "lev' w \<le> lev' q"
    proof (cases "q \<in> set queue")
      case True
      have "lev w \<le> lev q"
        using w pq True qle [OF True] by auto
      then show ?thesis by (simp add: lP [OF w] lq [OF True])
    next
      case False
      with q have "q \<in> set (fresh V ns)" by simp
      then show ?thesis using wu by (simp add: lP [OF w] lf)
    qed
  qed
  have c7: "\<forall>w \<in> insert u P. \<forall>x \<in> set (find_list graph w). x \<in> V \<union> set ns \<and> lev' x \<le> Suc (lev' w)"
  proof (intro ballI)
    fix w x assume w: "w \<in> insert u P" and x: "x \<in> set (find_list graph w)"
    show "x \<in> V \<union> set ns \<and> lev' x \<le> Suc (lev' w)"
    proof (cases "w = u")
      case True
      then have xns: "x \<in> set ns" using x by (simp add: ns_def)
      show ?thesis
      proof (cases "x \<in> V")
        case xV: True
        then consider "x \<in> P" | "x \<in> set (u # queue)" using V by auto
        then have "lev x \<le> Suc (lev u)"
        proof cases
          case 1
          then have "lev x \<le> lev u" using pq by simp
          then show ?thesis by simp
        next
          case 2
          then show ?thesis using spr by auto
        qed
        then show ?thesis
          using xV True by (simp add: old uV)
      next
        case False
        then show ?thesis
          using xns True by (simp add: new old uV)
      qed
    next
      case False
      with w have wP: "w \<in> P" by simp
      with cl x have "x \<in> V" "lev x \<le> Suc (lev w)" by blast+
      then show ?thesis by (simp add: old lP [OF w])
    qed
  qed
  show ?thesis
    unfolding sp_inv_def
    by (intro conjI) (rule c1, rule c2(1), rule c2(2), rule c3, rule c4, rule c5, rule c6, rule c7)
qed

lemma path_from_to_snoc:
  "path_from_to m s p xs \<Longrightarrow> v \<in> set (find_list m p) \<Longrightarrow> path_from_to m s v (xs @ [v])"
  by (auto simp: path_from_to_def is_path_snoc)

lemma reconstruct_loop_tree:
  assumes par: "\<forall>v \<in> V. v \<noteq> start \<longrightarrow>
         (\<exists>p \<in> V. Par v = Some p \<and> v \<in> set (find_list graph p) \<and> lev v = Suc (lev p))"
    and st: "lev start = 0"
    and v: "v \<in> V"
  shows "\<exists>c. reconstruct_loop dflt Par start v acc = Some (acc @ c) \<and> length c = lev v \<and>
           path_from_to graph start v (rev (c @ [start]))"
  using v
proof (induction "lev v" arbitrary: v acc)
  case 0
  with par have "v = start" by force
  then show ?case
    by (subst reconstruct_loop.simps) (simp add: st path_from_to_def)
next
  case (Suc n)
  then have ne: "v \<noteq> start" using st by auto
  with par Suc.prems obtain p where p: "p \<in> V" "Par v = Some p" "v \<in> set (find_list graph p)"
    "lev v = Suc (lev p)" by blast
  with Suc.hyps(2) have "n = lev p" by simp
  from Suc.hyps(1) [OF this p(1), of "acc @ [v]"] obtain c where
    c: "reconstruct_loop dflt Par start p (acc @ [v]) = Some ((acc @ [v]) @ c)"
      "length c = lev p" "path_from_to graph start p (rev (c @ [start]))"
    by blast
  have "reconstruct_loop dflt Par start v acc = reconstruct_loop dflt Par start p (acc @ [v])"
    by (subst reconstruct_loop.simps) (simp add: ne at_or_def p(2))
  then have a: "reconstruct_loop dflt Par start v acc = Some (acc @ (v # c))"
    using c(1) by simp
  have b: "length (v # c) = lev v"
    using c(2) p(4) by simp
  have "path_from_to graph start v (rev (c @ [start]) @ [v])"
    using c(3) p(3) by (rule path_from_to_snoc)
  then have "path_from_to graph start v (rev ((v # c) @ [start]))"
    by simp
  with a b show ?case by blast
qed

lemma reconstruct_tree:
  assumes "sp_inv graph start lev P Q V Par" and "v \<in> V"
  shows "\<exists>r. reconstruct dflt Par start v = Some r \<and> length r = Suc (lev v) \<and>
           path_from_to graph start v r"
proof -
  from assms(1) have par: "\<forall>v \<in> V. v \<noteq> start \<longrightarrow>
         (\<exists>p \<in> V. Par v = Some p \<and> v \<in> set (find_list graph p) \<and> lev v = Suc (lev p))"
    and st: "lev start = 0"
    unfolding sp_inv_def by blast+
  from reconstruct_loop_tree [OF par st assms(2), of dflt "[]"] obtain c where
    "reconstruct_loop dflt Par start v [] = Some c" "length c = lev v"
    "path_from_to graph start v (rev (c @ [start]))"
    by auto
  then show ?thesis
    by (simp add: reconstruct_def)
qed

lemma sp_level_bound:
  assumes "sp_inv graph start lev P (u # queue) V Par"
    and "is_path graph p" and "p \<noteq> []" and "hd p \<in> V"
    and "lev (hd p) + length p \<le> Suc (lev u)"
  shows "last p \<in> V \<and> Suc (lev (last p)) \<le> lev (hd p) + length p"
  using assms
proof (induction graph p rule: is_path.induct)
  case (1 m)
  then show ?case by simp
next
  case (2 m v)
  then show ?case by simp
next
  case (3 m v w rest)
  note inv = "3.prems"(1)
  from inv have V: "V = P \<union> set (u # queue)"
    and srt: "sorted (map lev (u # queue))"
    and cl: "\<forall>x \<in> P. \<forall>y \<in> set (find_list m x). y \<in> V \<and> lev y \<le> Suc (lev x)"
    unfolding sp_inv_def by blast+
  from "3.prems" have vV: "v \<in> V" and lt: "lev v < lev u" and e: "w \<in> set (find_list m v)"
    and pr: "is_path m (w # rest)" and len: "lev v + length (v # w # rest) \<le> Suc (lev u)"
    by simp_all
  have "v \<notin> set (u # queue)"
    using srt lt by auto
  with vV V have "v \<in> P" by simp
  with cl e have w: "w \<in> V" "lev w \<le> Suc (lev v)"
    by blast+
  have "last (w # rest) \<in> V \<and> Suc (lev (last (w # rest))) \<le> lev (hd (w # rest)) + length (w # rest)"
    using inv pr w len by (intro "3.IH") simp_all
  then show ?case
    using w(2) by simp
qed

lemma sp_shortest:
  assumes inv: "sp_inv graph start lev P (u # queue) V Par"
    and q: "path_from_to graph start u q"
  shows "Suc (lev u) \<le> length q"
proof (rule ccontr)
  assume "\<not> Suc (lev u) \<le> length q"
  then have le: "length q \<le> lev u" by simp
  from inv have st: "start \<in> V" "lev start = 0"
    unfolding sp_inv_def by blast+
  from q have qq: "is_path graph q" "q \<noteq> []" "hd q = start" "last q = u"
    by (simp_all add: path_from_to_def)
  have "last q \<in> V \<and> Suc (lev (last q)) \<le> lev (hd q) + length q"
    using qq st le by (intro sp_level_bound [OF inv]) simp_all
  with qq st le show False by simp
qed

lemma sp_closed_path:
  assumes "sp_inv graph start lev P [] V Par"
    and "is_path graph p" and "p \<noteq> []" and "hd p \<in> V"
  shows "last p \<in> V"
  using assms
proof (induction graph p rule: is_path.induct)
  case (1 m)
  then show ?case by simp
next
  case (2 m v)
  then show ?case by simp
next
  case (3 m v w rest)
  note inv = "3.prems"(1)
  from inv have "V = P" and cl: "\<forall>x \<in> P. \<forall>y \<in> set (find_list m x). y \<in> V"
    unfolding sp_inv_def by auto
  with "3.prems" have w: "w \<in> V" by auto
  have "last (w # rest) \<in> V"
    using inv "3.prems"(2) w by (intro "3.IH") simp_all
  then show ?case by simp
qed

lemma graphShortestPath_loop_correct:
  assumes "sp_inv graph start lev P Q V Par" and "e \<notin> P"
  shows "\<exists>r. graphShortestPath_loop dflt graph start e Q V Par = Some r \<and>
     (if \<exists>q. path_from_to graph start e q
      then path_from_to graph start e r \<and> (\<forall>q. path_from_to graph start e q \<longrightarrow> length r \<le> length q)
      else r = [])"
  using assms
proof (induction dflt graph start e Q V Par arbitrary: lev P rule: graphShortestPath_loop.induct)
  case (1 dflt graph start e visited parent)
  have "\<not> path_from_to graph start e q" for q
  proof
    assume q: "path_from_to graph start e q"
    from 1(1) have "start \<in> visited" "visited = P"
      unfolding sp_inv_def by auto
    with q have "last q \<in> visited"
      by (intro sp_closed_path [OF 1(1)]) (simp_all add: path_from_to_def)
    with q 1(2) \<open>visited = P\<close> show False
      by (simp add: path_from_to_def)
  qed
  then show ?case by simp
next
  case (2 dflt graph start e current queue visited parent)
  show ?case
  proof (cases "current = e")
    case True
    have cv: "current \<in> visited"
      using 2(2) unfolding sp_inv_def by auto
    from reconstruct_tree [OF 2(2) cv, of dflt] obtain r where
      r: "reconstruct dflt parent start current = Some r" "length r = Suc (lev current)"
        "path_from_to graph start current r"
      by blast
    have "\<forall>q. path_from_to graph start current q \<longrightarrow> length r \<le> length q"
      using sp_shortest [OF 2(2)] r(2) by simp
    with r True show ?thesis by auto
  next
    case False
    let ?ns = "find_list graph current"
    let ?lev' = "\<lambda>x. if x \<in> set ?ns - visited then Suc (lev current) else lev x"
    let ?Par' = "\<lambda>x. if x \<in> set ?ns - visited then Some current else parent x"
    have inv': "sp_inv graph start ?lev' (insert current P) (queue @ fresh visited ?ns)
        (visited \<union> set ?ns) ?Par'"
      by (rule sp_inv_step [OF 2(2)])
    have np: "e \<notin> insert current P"
      using False 2(3) by simp
    have "\<exists>r. graphShortestPath_loop dflt graph start e (queue @ fresh visited ?ns)
        (visited \<union> set ?ns) ?Par' = Some r \<and>
        (if \<exists>q. path_from_to graph start e q
         then path_from_to graph start e r \<and>
           (\<forall>q. path_from_to graph start e q \<longrightarrow> length r \<le> length q)
         else r = [])"
      by (rule 2(1) [OF False _ _ inv' np]) (simp_all add: graphShortestPath_for_eq)
    then show ?thesis
      using False by (simp add: graphShortestPath_for_eq)
  qed
qed

subsection \<open>Degenerate inputs\<close>

lemma built_keys_atoms: "built g \<Longrightarrow> fst ` set (adjacency g) \<subseteq> set (atoms g)"
proof (induction rule: built.induct)
  case built_init
  then show ?case by (simp add: Molecule_init_def)
next
  case (built_addAtom g atom)
  then show ?case
    by (auto simp: addAtom_def Let_def dom_update)
next
  case (built_addBond g f t ty)
  have "fst ` set (adjacency (addAtom g f)) \<subseteq> set (atoms (addAtom g f))"
    using built_addBond.IH by (auto simp: addAtom_def Let_def dom_update)
  then have a: "fst ` set (adjacency (addAtom (addAtom g f) t)) \<subseteq> set (atoms (addAtom (addAtom g f) t))"
    by (auto simp: addAtom_def [of _ t] Let_def dom_update)
  have ft: "f \<in> set (atoms (addAtom (addAtom g f) t))" "t \<in> set (atoms (addAtom (addAtom g f) t))"
    by (simp_all add: atoms_addAtom)
  show ?case
  proof (cases "scan_bonds (bonds g) f t ty")
    case True
    then show ?thesis using a by (simp add: addBond_duplicate)
  next
    case False
    show ?thesis
      using a ft by (auto simp: addBond_fresh [OF False] Let_def keys_push_back_at)
  qed
next
  case (built_clear g)
  then show ?case by (simp add: clear_def)
qed

lemma neighbors_absent: "built g \<Longrightarrow> \<not> hasAtom g a \<Longrightarrow> neighbors g a = []"
proof -
  assume "built g" and "\<not> hasAtom g a"
  then have "a \<notin> fst ` set (adjacency g)"
    using built_keys_atoms [of g] by (auto simp: hasAtom_def)
  then have "map_of (adjacency g) a = None"
    by (simp add: map_of_eq_None_iff)
  then show ?thesis
    by (simp add: neighbors_def find_list_def)
qed

lemma path_rtrancl:
  assumes "is_path m p" and "p \<noteq> []"
  shows "(hd p, last p) \<in> (edges m)\<^sup>*"
  using assms
proof (induction m p rule: is_path.induct)
  case (1 m)
  then show ?case by simp
next
  case (2 m v)
  then show ?case by simp
next
  case (3 m u v rest)
  then have "(u, v) \<in> edges m" "(v, last (v # rest)) \<in> (edges m)\<^sup>*"
    by (simp_all add: edges_def)
  then have "(u, last (v # rest)) \<in> (edges m)\<^sup>*"
    by (rule converse_rtrancl_into_rtrancl)
  then show ?case by simp
qed

lemma rtrancl_path:
  assumes "(s, e) \<in> (edges m)\<^sup>*"
  shows "\<exists>p. path_from_to m s e p"
  using assms
proof (induction rule: rtrancl_induct)
  case base
  have "path_from_to m s s [s]" by (simp add: path_from_to_def)
  then show ?case ..
next
  case (step y z)
  then obtain p where "path_from_to m s y p" by blast
  moreover from step(2) have "z \<in> set (find_list m y)" by (simp add: edges_def)
  ultimately have "path_from_to m s z (p @ [z])" by (rule path_from_to_snoc)
  then show ?case ..
qed

lemma path_iff_rtrancl: "(\<exists>p. path_from_to m s e p) \<longleftrightarrow> (s, e) \<in> (edges m)\<^sup>*"
  using path_rtrancl [of m] rtrancl_path [of s e m] by (auto simp: path_from_to_def)

lemma graphHasPath_for_found: "fst (graphHasPath_for e ns s) \<Longrightarrow> e \<in> set ns"
  by (induction e ns s rule: graphHasPath_for.induct) (auto split: if_splits)

lemma graphHasPath_loop_sound:
  "graphHasPath_loop graph e Q V \<Longrightarrow> e \<in> (edges graph)\<^sup>* `` set Q"
proof (induction graph e Q V rule: graphHasPath_loop.induct)
  case (1 graph e visited)
  then show ?case by simp
next
  case (2 graph e current queue visited)
  let ?ns = "find_list graph current"
  let ?r = "graphHasPath_for e ?ns (visited, queue)"
  show ?case
  proof (cases "fst ?r")
    case True
    then have "e \<in> set ?ns" by (rule graphHasPath_for_found)
    then have "(current, e) \<in> edges graph" by (simp add: edges_def)
    then show ?thesis by auto
  next
    case False
    then have s: "snd ?r = (visited \<union> set ?ns, queue @ fresh visited ?ns)"
      by (simp add: graphHasPath_for_not_found enqueue_unvisited_eq)
    have "graphHasPath_loop graph e (snd (snd ?r)) (fst (snd ?r))"
      using "2.prems" False by (simp add: Let_def)
    then have "e \<in> (edges graph)\<^sup>* `` set (snd (snd ?r))"
      using False by (intro "2.IH") simp_all
    then have "e \<in> (edges graph)\<^sup>* `` (set queue \<union> (set ?ns - visited))"
      by (simp add: s set_fresh)
    then obtain x where x: "x \<in> set queue \<union> set ?ns" "(x, e) \<in> (edges graph)\<^sup>*"
      by blast
    show ?thesis
    proof (cases "x \<in> set queue")
      case True
      with x(2) show ?thesis by auto
    next
      case False
      with x(1) have "(current, x) \<in> edges graph" by (simp add: edges_def)
      then have "(current, e) \<in> (edges graph)\<^sup>*"
        using x(2) by (rule converse_rtrancl_into_rtrancl)
      then show ?thesis by auto
    qed
  qed
qed

lemma graphHasPath_sound: "graphHasPath graph start e \<Longrightarrow> (start, e) \<in> (edges graph)\<^sup>*"
  using graphHasPath_loop_sound [of graph e "[start]" "{start}"]
  by (auto simp: graphHasPath_def split: if_splits)

lemma graphShortestPath_returns:
  "\<exists>p. graphShortestPath dflt graph start e = Some p \<and>
       ((start, e) \<notin> (edges graph)\<^sup>* \<longrightarrow> p = [])"
proof (cases "map_of graph start = None")
  case True
  then show ?thesis by (simp add: graphShortestPath_def)
next
  case False
  have "sp_inv graph start (\<lambda>x. 0) {} [start] {start} [start \<mapsto> start]"
    by (rule sp_inv_init)
  then have "\<exists>r. graphShortestPath_loop dflt graph start e [start] {start} [start \<mapsto> start] = Some r \<and>
     (if \<exists>q. path_from_to graph start e q
      then path_from_to graph start e r \<and>
        (\<forall>q. path_from_to graph start e q \<longrightarrow> length r \<le> length q)
      else r = [])"
    by (rule graphShortestPath_loop_correct) simp
  then show ?thesis
    unfolding graphShortestPath_def if_not_P [OF False] path_iff_rtrancl
    by (auto split: if_splits)
qed

lemma no_out_edge:
  assumes "find_list m a = []" and "a \<noteq> b"
  shows "(a, b) \<notin> (edges m)\<^sup>*"
proof
  assume "(a, b) \<in> (edges m)\<^sup>*"
  then show False
    using assms by (cases rule: converse_rtranclE) (simp_all add: edges_def)
qed

subsection \<open>Self-loops on a node other than the default value\<close>

lemma hasCycleHelper_frame:
  "fst s \<subseteq> fst (snd (hasCycleHelper dflt g node par s)) \<and>
   node \<in> fst (snd (hasCycleHelper dflt g node par s)) \<and>
   (\<forall>x \<in> fst s. x \<noteq> node \<longrightarrow> snd (snd (hasCycleHelper dflt g node par s)) x = snd s x)"
  "fst s \<subseteq> fst (snd (hasCycleHelper_for dflt g node ns s)) \<and>
   (\<forall>x \<in> fst s. snd (snd (hasCycleHelper_for dflt g node ns s)) x = snd s x)"
proof (induction dflt g node par s and dflt g node ns s rule: hasCycleHelper_hasCycleHelper_for.induct)
  case (1 dflt g node par visited parent)
  then show ?case by auto
next
  case (2 dflt g node s)
  then show ?case by simp
next
  case (3 dflt g node neighbor rest visited parent)
  let ?r = "hasCycleHelper dflt g neighbor node (visited, parent)"
  show ?case
  proof (cases "neighbor \<in> visited")
    case True
    then show ?thesis
      using 3(3) by (cases "neighbor = at_or dflt parent node") auto
  next
    case False
    have a: "visited \<subseteq> fst (snd ?r)" "\<forall>x \<in> visited. snd (snd ?r) x = parent x"
      using 3(1) [OF False] False by auto
    show ?thesis
    proof (cases "fst ?r")
      case True
      with False a show ?thesis by (simp add: Let_def)
    next
      case nf: False
      have b: "fst (snd ?r) \<subseteq> fst (snd (hasCycleHelper_for dflt g node rest (snd ?r)))"
        "\<forall>x \<in> fst (snd ?r). snd (snd (hasCycleHelper_for dflt g node rest (snd ?r))) x = snd (snd ?r) x"
        using 3(2) [OF False refl nf] by auto
      have "visited \<subseteq> fst (snd (hasCycleHelper_for dflt g node rest (snd ?r)))"
        using a(1) b(1) by blast
      moreover have "\<forall>x \<in> visited. snd (snd (hasCycleHelper_for dflt g node rest (snd ?r))) x = parent x"
        using a b(2) by auto
      ultimately show ?thesis
        using False nf by (simp add: Let_def)
    qed
  qed
qed

lemma hasCycleHelper_self_loop:
  "n \<in> set (neighbors g n) \<Longrightarrow> node \<notin> fst s \<Longrightarrow> (node = n \<longrightarrow> par \<noteq> n) \<Longrightarrow> n \<notin> fst s \<Longrightarrow>
     n \<in> fst (snd (hasCycleHelper dflt g node par s)) \<Longrightarrow> fst (hasCycleHelper dflt g node par s)"
  "n \<in> set (neighbors g n) \<Longrightarrow>
     (node = n \<longrightarrow> n \<in> set ns \<and> n \<in> fst s \<and> at_or dflt (snd s) n \<noteq> n) \<Longrightarrow>
     node = n \<or> (n \<notin> fst s \<and> n \<in> fst (snd (hasCycleHelper_for dflt g node ns s))) \<Longrightarrow>
     fst (hasCycleHelper_for dflt g node ns s)"
proof (induction dflt g node par s and dflt g node ns s rule: hasCycleHelper_hasCycleHelper_for.induct)
  case (1 dflt g node par visited parent)
  have "fst (hasCycleHelper_for dflt g node (neighbors g node) (insert node visited, parent(node \<mapsto> par)))"
  proof (rule 1(1) [OF 1(2)])
    show "node = n \<longrightarrow> n \<in> set (neighbors g node) \<and> n \<in> fst (insert node visited, parent(node \<mapsto> par)) \<and>
        at_or dflt (snd (insert node visited, parent(node \<mapsto> par))) n \<noteq> n"
      using 1(2,4) by (auto simp: at_or_def)
    show "node = n \<or> (n \<notin> fst (insert node visited, parent(node \<mapsto> par)) \<and>
        n \<in> fst (snd (hasCycleHelper_for dflt g node (neighbors g node)
          (insert node visited, parent(node \<mapsto> par)))))"
      using 1(5,6) by auto
  qed
  then show ?case by simp
next
  case (2 dflt g node s)
  then show ?case by auto
next
  case (3 dflt g node neighbor rest visited parent)
  note loop = "3.prems"(1)
  note pre = "3.prems"(2)
  note trig = "3.prems"(3)
  let ?r = "hasCycleHelper dflt g neighbor node (visited, parent)"
  show ?case
  proof (cases "neighbor \<in> visited")
    case True
    show ?thesis
    proof (cases "neighbor = at_or dflt parent node")
      case False
      with True show ?thesis by simp
    next
      case eq: True
      have ne: "\<not> neighbor \<noteq> at_or dflt parent node" using eq by simp
      have res: "hasCycleHelper_for dflt g node (neighbor # rest) (visited, parent) =
          hasCycleHelper_for dflt g node rest (visited, parent)"
        using True eq by simp
      have "fst (hasCycleHelper_for dflt g node rest (visited, parent))"
      proof (rule "3.IH"(3) [OF _ ne loop])
        show "\<not> neighbor \<notin> visited" using True by simp
        show "node = n \<longrightarrow> n \<in> set rest \<and> n \<in> fst (visited, parent) \<and>
            at_or dflt (snd (visited, parent)) n \<noteq> n"
          using pre eq by auto
        show "node = n \<or> (n \<notin> fst (visited, parent) \<and>
            n \<in> fst (snd (hasCycleHelper_for dflt g node rest (visited, parent))))"
          using trig res by simp
      qed
      then show ?thesis by (simp only: res)
    qed
  next
    case False
    show ?thesis
    proof (cases "fst ?r")
      case True
      with False show ?thesis by (simp add: Let_def)
    next
      case nf: False
      have res: "hasCycleHelper_for dflt g node (neighbor # rest) (visited, parent) =
          hasCycleHelper_for dflt g node rest (snd ?r)"
        using False nf by (simp add: Let_def)
      have fr: "visited \<subseteq> fst (snd ?r)" "\<forall>x \<in> visited. x \<noteq> neighbor \<longrightarrow> snd (snd ?r) x = parent x"
        using hasCycleHelper_frame(1) [of "(visited, parent)" dflt g neighbor node] by auto
      have nv: "n \<notin> visited \<Longrightarrow> node \<noteq> n \<Longrightarrow> n \<notin> fst (snd ?r)"
      proof
        assume "n \<notin> visited" "node \<noteq> n" "n \<in> fst (snd ?r)"
        then have "fst ?r"
          using False by (intro "3.IH"(1) [OF False loop]) simp_all
        with nf show False by simp
      qed
      have "fst (hasCycleHelper_for dflt g node rest (snd ?r))"
      proof (rule "3.IH"(2) [OF False refl nf loop])
        show "node = n \<longrightarrow> n \<in> set rest \<and> n \<in> fst (snd ?r) \<and> at_or dflt (snd (snd ?r)) n \<noteq> n"
        proof
          assume eq: "node = n"
          with pre have p: "n \<in> set (neighbor # rest)" "n \<in> visited" "at_or dflt parent n \<noteq> n"
            by simp_all
          with False have "n \<noteq> neighbor" by auto
          with p fr show "n \<in> set rest \<and> n \<in> fst (snd ?r) \<and> at_or dflt (snd (snd ?r)) n \<noteq> n"
            by (auto simp: at_or_def)
        qed
        show "node = n \<or> (n \<notin> fst (snd ?r) \<and>
            n \<in> fst (snd (hasCycleHelper_for dflt g node rest (snd ?r))))"
          using trig nv res by auto
      qed
      then show ?thesis by (simp only: res)
    qed
  qed
qed

lemma hasCycle_loop_self_loop:
  assumes "n \<in> set (neighbors g n)" and "n \<noteq> dflt"
  shows "n \<in> set as \<Longrightarrow> n \<notin> fst s \<Longrightarrow> hasCycle_loop dflt g as s"
proof (induction as arbitrary: s)
  case Nil
  then show ?case by simp
next
  case (Cons atom rest)
  obtain visited parent where s: "s = (visited, parent)" by (cases s)
  let ?r = "hasCycleHelper dflt g atom dflt (visited, parent)"
  show ?case
  proof (cases "atom \<in> visited")
    case True
    with Cons.prems s have "n \<in> set rest" by auto
    then have "hasCycle_loop dflt g rest s" using Cons.prems(2) by (rule Cons.IH)
    with True s show ?thesis by simp
  next
    case False
    show ?thesis
    proof (cases "fst ?r")
      case True
      with False s show ?thesis by (simp add: Let_def)
    next
      case nf: False
      have nin: "n \<notin> fst (snd ?r)"
      proof
        assume "n \<in> fst (snd ?r)"
        then have "fst ?r"
          using False assms Cons.prems(2) s
          by (intro hasCycleHelper_self_loop(1) [of n]) auto
        with nf show False by simp
      qed
      have "atom \<in> fst (snd ?r)"
        using hasCycleHelper_frame(1) [of "(visited, parent)" dflt g atom dflt] by simp
      with nin have "atom \<noteq> n" by auto
      with Cons.prems(1) have "n \<in> set rest" by simp
      then have "hasCycle_loop dflt g rest (snd ?r)"
        using nin by (rule Cons.IH)
      with False nf s show ?thesis by (simp add: Let_def)
    qed
  qed
qed

lemma hasCycle_self_loop:
  assumes "Molecule_inv g" and "hasBond g n n k" and "n \<noteq> dflt"
  shows "hasCycle dflt g"
proof -
  from assms(2) obtain b where b: "b \<in> set (bonds g)" "b_from b = n" "b_to b = n"
    by (auto simp: hasBond_def scan_bonds_iff)
  with assms(1) have "n \<in> set (atoms g)" "n \<in> set (neighbors g n)"
    unfolding Molecule_inv_def by force+
  then show ?thesis
    unfolding hasCycle_def using assms(3)
    by (intro hasCycle_loop_self_loop) simp_all
qed

section \<open>Claims on the mutators\<close>

text \<open>
  C1, as amended. Adding a bond whose (from, to, kind) triple is not stored yet: for
  distinct endpoints \<open>a\<close> and \<open>b\<close>, \<open>b\<close> is appended to the neighbours of \<open>a\<close> for every
  kind, and \<open>a\<close> is appended to the neighbours of \<open>b\<close> exactly when the kind is not ARROW
  (with ARROW the neighbours of \<open>b\<close> stay as they were); for a self-loop \<open>a = b\<close> the
  node is appended to its own neighbours once with ARROW and twice with the other kinds;
  no other node's neighbours change; and two kinds other than ARROW, such as DOUBLE and
  BIDIRECTIONAL, give the same adjacency mapping.
\<close>

theorem addBond_adjacency:
  assumes "\<not> hasBond g a b kind"
  shows "(a \<noteq> b \<longrightarrow>
            neighbors (addBond g a b kind) a = neighbors g a @ [b] \<and>
            neighbors (addBond g a b kind) b =
              (if kind = ARROW then neighbors g b else neighbors g b @ [a])) \<and>
         (a = b \<longrightarrow>
            neighbors (addBond g a b kind) a =
              (if kind = ARROW then neighbors g a @ [a] else neighbors g a @ [a, a])) \<and>
         (\<forall>c. c \<noteq> a \<and> c \<noteq> b \<longrightarrow> neighbors (addBond g a b kind) c = neighbors g c) \<and>
         (\<forall>kind'. kind \<noteq> ARROW \<and> kind' \<noteq> ARROW \<and> \<not> hasBond g a b kind' \<longrightarrow>
            adjacency (addBond g a b kind') = adjacency (addBond g a b kind))"
proof -
  from assms have fresh: "\<not> scan_bonds (bonds g) a b kind"
    by (simp add: hasBond_def)
  have adj: "adjacency (addBond g a b k) =
      push_back_at (push_back_at (adjacency (addAtom (addAtom g a) b)) a b) b a"
    if "k \<noteq> ARROW" "\<not> hasBond g a b k" for k
    using that by (simp add: addBond_fresh hasBond_def Let_def)
  have p4: "\<forall>kind'. kind \<noteq> ARROW \<and> kind' \<noteq> ARROW \<and> \<not> hasBond g a b kind' \<longrightarrow>
      adjacency (addBond g a b kind') = adjacency (addBond g a b kind)"
    using adj assms by simp
  have N: "neighbors (addBond g a b kind) x =
      neighbors g x @ (if x = a then [b] else []) @ (if x = b \<and> kind \<noteq> ARROW then [a] else [])"
    for x by (rule neighbors_addBond_fresh [OF fresh])
  have p1: "a \<noteq> b \<longrightarrow>
      neighbors (addBond g a b kind) a = neighbors g a @ [b] \<and>
      neighbors (addBond g a b kind) b =
        (if kind = ARROW then neighbors g b else neighbors g b @ [a])"
    by (simp add: N)
  have p2: "a = b \<longrightarrow>
      neighbors (addBond g a b kind) a =
        (if kind = ARROW then neighbors g a @ [a] else neighbors g a @ [a, a])"
    using N [of a] by auto
  have p3: "\<forall>c. c \<noteq> a \<and> c \<noteq> b \<longrightarrow> neighbors (addBond g a b kind) c = neighbors g c"
    by (simp add: N)
  show ?thesis
    by (intro conjI) (rule p1, rule p2, rule p3, rule p4)
qed

theorem addBond_adjacency_witness:
  "\<not> hasBond Molecule_init (1::nat) 2 SINGLE \<and>
   neighbors (addBond Molecule_init (1::nat) 2 SINGLE) 1 = [2] \<and>
   neighbors (addBond Molecule_init (1::nat) 2 SINGLE) 2 = [1] \<and>
   neighbors (addBond Molecule_init (1::nat) 2 ARROW) 2 = []"
proof -
  have h: "\<not> hasBond Molecule_init (1::nat) 2 k" for k
    by (simp add: hasBond_def Molecule_init_def)
  have n: "neighbors Molecule_init (x::nat) = []" for x
    by (simp add: neighbors_def find_list_def Molecule_init_def)
  show ?thesis
    using addBond_adjacency [OF h [of SINGLE]] addBond_adjacency [OF h [of ARROW]] h [of SINGLE]
    by (simp add: n)
qed

text \<open>
  The claim as stated fails on a self-loop: on the empty graph, \<^verbatim>\<open>addBond(0, 0, ARROW)\<close>
  stores one bond, no other bond supplies a reverse entry, and yet \<open>a = 0\<close> has been
  appended to the neighbours of \<open>b = 0\<close>.
\<close>

theorem addBond_arrow_self_loop_counterexample:
  "\<not> hasBond Molecule_init (0::nat) 0 ARROW \<and>
   bonds (addBond Molecule_init (0::nat) 0 ARROW) = [\<lparr>b_from = 0, b_to = 0, b_type = ARROW\<rparr>] \<and>
   neighbors (addBond Molecule_init (0::nat) 0 ARROW) 0 = neighbors Molecule_init 0 @ [0] \<and>
   (0::nat) \<in> set (neighbors (addBond Molecule_init (0::nat) 0 ARROW) 0)"
  by (simp add: hasBond_def Molecule_init_def addBond_def addAtom_def Let_def neighbors_def
      push_back_at_def find_list_def)

text \<open>
  C3. In every state built through the interface, \<^verbatim>\<open>addAtom\<close> of a present node and
  \<^verbatim>\<open>addBond\<close> of a stored (from, to, kind) triple return the state unchanged: same
  node set, bond list and adjacency mapping, hence the same counts.
\<close>

theorem addAtom_addBond_idempotent:
  assumes "built g"
  shows "(hasAtom g n \<longrightarrow> addAtom g n = g \<and> atomCount (addAtom g n) = atomCount g) \<and>
         (hasBond g a b k \<longrightarrow> addBond g a b k = g \<and>
            atomCount (addBond g a b k) = atomCount g \<and>
            bondCount (addBond g a b k) = bondCount g)"
  using built_inv [OF assms]
  by (simp add: hasAtom_def hasBond_def addAtom_present addBond_present)

theorem addAtom_addBond_idempotent_witness:
  "built (addBond Molecule_init (1::nat) 2 SINGLE) \<and>
   hasAtom (addBond Molecule_init (1::nat) 2 SINGLE) 1 \<and>
   hasBond (addBond Molecule_init (1::nat) 2 SINGLE) 1 2 SINGLE \<and>
   addAtom (addBond Molecule_init (1::nat) 2 SINGLE) 1 = addBond Molecule_init 1 2 SINGLE \<and>
   addBond (addBond Molecule_init (1::nat) 2 SINGLE) 1 2 SINGLE = addBond Molecule_init 1 2 SINGLE"
proof -
  let ?g = "addBond Molecule_init (1::nat) 2 SINGLE"
  have b: "built ?g"
    by (intro built_addBond built_init)
  have a: "hasAtom ?g 1"
    by (simp add: hasAtom_def addBond_def atoms_addAtom bonds_addAtom Molecule_init_def Let_def)
  have e: "hasBond ?g 1 2 SINGLE"
    by (simp add: hasBond_def bonds_addBond Molecule_init_def)
  show ?thesis
    using addAtom_addBond_idempotent [OF b, of 1 1 2 SINGLE] a b e by simp
qed

text \<open>
  C9. Every state built from the empty graph by \<^verbatim>\<open>addAtom\<close>, \<^verbatim>\<open>addBond\<close> and \<^verbatim>\<open>clear\<close>
  has both endpoints of every stored bond in the node set, no node listed twice in the
  node set, and an adjacency entry for every node of the node set.
\<close>

theorem built_invariant:
  assumes "built g"
  shows "(\<forall>b \<in> set (bonds g). hasAtom g (b_from b) \<and> hasAtom g (b_to b)) \<and>
         distinct (atoms g) \<and>
         (\<forall>n \<in> set (atoms g). map_of (adjacency g) n \<noteq> None)"
proof -
  have "Molecule_inv g"
    using assms by (rule built_inv)
  then show ?thesis
    unfolding Molecule_inv_def hasAtom_def map_of_eq_None_iff by blast
qed

theorem built_invariant_witness:
  "built (addBond (addAtom Molecule_init (3::nat)) 1 2 ARROW) \<and>
   set (atoms (addBond (addAtom Molecule_init (3::nat)) 1 2 ARROW)) = {1, 2, 3} \<and>
   bonds (addBond (addAtom Molecule_init (3::nat)) 1 2 ARROW) =
     [\<lparr>b_from = 1, b_to = 2, b_type = ARROW\<rparr>] \<and>
   distinct (atoms (addBond (addAtom Molecule_init (3::nat)) 1 2 ARROW)) \<and>
   map_of (adjacency (addBond (addAtom Molecule_init (3::nat)) 1 2 ARROW)) 3 \<noteq> None \<and>
   map_of (adjacency (addBond (addAtom Molecule_init (3::nat)) 1 2 ARROW)) 1 \<noteq> None \<and>
   map_of (adjacency (addBond (addAtom Molecule_init (3::nat)) 1 2 ARROW)) 2 \<noteq> None"
proof -
  let ?g = "addBond (addAtom Molecule_init (3::nat)) 1 2 ARROW"
  have b: "built ?g"
    by (intro built_addBond built_addAtom built_init)
  have a: "set (atoms ?g) = {1, 2, 3}"
    by (auto simp: addBond_def addAtom_def Molecule_init_def Let_def)
  have e: "bonds ?g = [\<lparr>b_from = 1, b_to = 2, b_type = ARROW\<rparr>]"
    by (simp add: bonds_addBond bonds_addAtom Molecule_init_def)
  show ?thesis
    using built_invariant [OF b] a b e by simp
qed

text \<open>
  C10. \<^verbatim>\<open>hasBond\<close> compares with the stored (from, to) order: in a built state with no
  SINGLE bond stored from \<open>b\<close> to \<open>a\<close>, after \<^verbatim>\<open>addBond(a, b, SINGLE)\<close> with \<open>a \<noteq> b\<close> the
  query \<^verbatim>\<open>hasBond(b, a, SINGLE)\<close> is false, although \<open>a\<close> is among the neighbours of \<open>b\<close>
  and \<^verbatim>\<open>hasBond(a, b, SINGLE)\<close> is true.
\<close>

theorem hasBond_stored_order:
  assumes "built g" and "a \<noteq> b" and "\<not> hasBond g b a SINGLE"
  shows "\<not> hasBond (addBond g a b SINGLE) b a SINGLE \<and>
         a \<in> set (neighbors (addBond g a b SINGLE) b) \<and>
         hasBond (addBond g a b SINGLE) a b SINGLE"
proof (cases "scan_bonds (bonds g) a b SINGLE")
  case True
  have inv: "Molecule_inv g"
    using assms(1) by (rule built_inv)
  from True obtain e where e: "e \<in> set (bonds g)" "b_from e = a" "b_to e = b" "b_type e = SINGLE"
    by (auto simp: scan_bonds_iff)
  with inv have "a \<in> set (neighbors g b)"
    unfolding Molecule_inv_def by fastforce
  then show ?thesis
    using assms(3) True by (simp add: addBond_present [OF inv True] hasBond_def)
next
  case False
  have "\<not> scan_bonds (bonds g @ [\<lparr>b_from = a, b_to = b, b_type = SINGLE\<rparr>]) b a SINGLE"
    using assms(2,3) by (auto simp: scan_bonds_iff hasBond_def)
  moreover have "scan_bonds (bonds g @ [\<lparr>b_from = a, b_to = b, b_type = SINGLE\<rparr>]) a b SINGLE"
    by (simp add: scan_bonds_iff)
  ultimately show ?thesis
    using False assms(2)
    by (simp add: hasBond_def bonds_addBond neighbors_addBond_fresh [OF False])
qed

theorem hasBond_stored_order_witness:
  "built (Molecule_init :: nat Molecule) \<and> (1::nat) \<noteq> 2 \<and>
   \<not> hasBond Molecule_init (2::nat) 1 SINGLE \<and>
   \<not> hasBond (addBond Molecule_init (1::nat) 2 SINGLE) 2 1 SINGLE \<and>
   (1::nat) \<in> set (neighbors (addBond Molecule_init 1 2 SINGLE) 2) \<and>
   hasBond (addBond Molecule_init (1::nat) 2 SINGLE) 1 2 SINGLE"
proof -
  have h: "\<not> hasBond Molecule_init (2::nat) 1 SINGLE"
    by (simp add: hasBond_def Molecule_init_def)
  have d: "(1::nat) \<noteq> 2"
    by simp
  show ?thesis
    using hasBond_stored_order [OF built_init d h] h built_init [where ?'a = nat] by simp
qed

section \<open>Claims on the traversals\<close>

text \<open>
  C6. For every Molecule and every present node \<open>start\<close>, \<^verbatim>\<open>bfs(start)\<close> and \<^verbatim>\<open>dfs(start)\<close>
  list the same set of nodes, namely the nodes reachable from \<open>start\<close> through the
  adjacency mapping, and neither list repeats a node.
\<close>

theorem bfs_dfs_reachable:
  assumes "hasAtom g start"
  shows "set (bfs g start) = set (dfs g start) \<and>
         set (bfs g start) = {v. (start, v) \<in> (edges (adjacency g))\<^sup>*} \<and>
         distinct (bfs g start) \<and> distinct (dfs g start)"
proof -
  have "(edges (adjacency g))\<^sup>* `` {start} = {v. (start, v) \<in> (edges (adjacency g))\<^sup>*}"
    by blast
  then show ?thesis
    using bfs_reach [OF assms] dfs_reach [OF assms] by simp
qed

text \<open>
  The witness is the graph 2 - 3, 2 - 4, 3 -> 5, on which the two orders differ.
\<close>

theorem bfs_dfs_reachable_witness:
  "hasAtom (addBond (addBond (addBond Molecule_init (2::nat) 3 SINGLE) 2 4 SINGLE) 3 5 ARROW) 2 \<and>
   bfs (addBond (addBond (addBond Molecule_init (2::nat) 3 SINGLE) 2 4 SINGLE) 3 5 ARROW) 2
     = [2, 3, 4, 5] \<and>
   dfs (addBond (addBond (addBond Molecule_init (2::nat) 3 SINGLE) 2 4 SINGLE) 3 5 ARROW) 2
     = [2, 3, 5, 4] \<and>
   {v. (2, v) \<in> (edges (adjacency
      (addBond (addBond (addBond Molecule_init (2::nat) 3 SINGLE) 2 4 SINGLE) 3 5 ARROW)))\<^sup>*}
     = {2, 3, 4, 5}"
proof -
  let ?g = "addBond (addBond (addBond Molecule_init (2::nat) 3 SINGLE) 2 4 SINGLE) 3 5 ARROW"
  have adj: "adjacency ?g = [(2, [3, 4]), (3, [2, 5]), (4, [2]), (5, [])]"
    by (simp add: addBond_def addAtom_def Molecule_init_def Let_def push_back_at_def find_list_def)
  have at: "atoms ?g = [2, 3, 4, 5]"
    by (simp add: addBond_def addAtom_def Molecule_init_def Let_def)
  have h: "hasAtom ?g 2"
    by (simp add: hasAtom_def at)
  have b: "bfs ?g 2 = [2, 3, 4, 5]"
    by (simp add: bfs_def h neighbors_def adj find_list_def)
  have d: "dfs ?g 2 = [2, 3, 5, 4]"
    by (simp add: dfs_def h neighbors_def adj find_list_def)
  show ?thesis
    using bfs_dfs_reachable [OF h] h b d by auto
qed

text \<open>
  C7. \<^verbatim>\<open>hasPath(from, to)\<close> is false when either endpoint is absent from the node set,
  also when the two are equal; it is true when both are present and equal; for two
  present, distinct nodes it is true exactly when \<open>to\<close> is reachable from \<open>from\<close> through
  the adjacency mapping.
\<close>

theorem hasPath_correct:
  "(\<not> hasAtom g from \<or> \<not> hasAtom g to \<longrightarrow> \<not> hasPath g from to) \<and>
   (hasAtom g from \<and> from = to \<longrightarrow> hasPath g from to) \<and>
   (hasAtom g from \<and> hasAtom g to \<and> from \<noteq> to \<longrightarrow>
      (hasPath g from to \<longleftrightarrow> (from, to) \<in> (edges (adjacency g))\<^sup>*))"
proof -
  have "hasPath_loop g to [from] {from} \<longleftrightarrow> to \<in> (edges (adjacency g))\<^sup>* `` {from}"
    by (rule hasPath_loop_correct [of _ "{}"]) simp_all
  then show ?thesis
    by (auto simp: hasPath_def)
qed

theorem hasPath_correct_witness:
  "hasAtom (addBond Molecule_init (2::nat) 3 ARROW) 2 \<and>
   hasAtom (addBond Molecule_init (2::nat) 3 ARROW) 3 \<and>
   \<not> hasAtom (addBond Molecule_init (2::nat) 3 ARROW) 4 \<and>
   hasPath (addBond Molecule_init (2::nat) 3 ARROW) 2 3 \<and>
   (2, 3) \<in> (edges (adjacency (addBond Molecule_init (2::nat) 3 ARROW)))\<^sup>* \<and>
   \<not> hasPath (addBond Molecule_init (2::nat) 3 ARROW) 3 2 \<and>
   (3, 2) \<notin> (edges (adjacency (addBond Molecule_init (2::nat) 3 ARROW)))\<^sup>* \<and>
   \<not> hasPath (addBond Molecule_init (2::nat) 3 ARROW) 4 4 \<and>
   hasPath (addBond Molecule_init (2::nat) 3 ARROW) 3 3"
proof -
  let ?g = "addBond Molecule_init (2::nat) 3 ARROW"
  have adj: "adjacency ?g = [(2, [3]), (3, [])]"
    by (simp add: addBond_def addAtom_def Molecule_init_def Let_def push_back_at_def find_list_def)
  have at: "atoms ?g = [2, 3]"
    by (simp add: addBond_def addAtom_def Molecule_init_def Let_def)
  have h: "hasAtom ?g 2" "hasAtom ?g 3" "\<not> hasAtom ?g 4"
    by (simp_all add: hasAtom_def at)
  have p: "hasPath ?g 2 3" "\<not> hasPath ?g 3 2"
    by (simp_all add: hasPath_def h neighbors_def adj find_list_def)
  show ?thesis
    using hasPath_correct [of ?g 2 3] hasPath_correct [of ?g 3 2] hasPath_correct [of ?g 4 4]
      hasPath_correct [of ?g 3 3] h p
    by simp
qed

section \<open>Cycle detection and self-loops\<close>

text \<open>
  C2. The claim is that \<^verbatim>\<open>hasCycle()\<close> is true for every graph with a self-loop, also on
  the default-constructed node value. \<^verbatim>\<open>hasCycle\<close> starts each search with
  \<^verbatim>\<open>T()\<close> as the parent of the root, and \<^verbatim>\<open>hasCycleHelper\<close> skips a visited neighbour
  that equals the recorded parent. On a \<^verbatim>\<open>Molecule<std::string>\<close> whose only bond is a
  self-loop on the empty string, the root is its own recorded parent and the search
  answers false. On every other node a self-loop is found: that is lemma
  \<open>hasCycle_self_loop\<close> above, for every state that satisfies the invariant, every bond
  kind and every iteration order.
\<close>

theorem hasCycle_default_self_loop:
  "hasBond (addBond Molecule_init '''' '''' SINGLE) '''' '''' SINGLE \<and>
   hasCycle '''' (addBond Molecule_init '''' '''' SINGLE) = False \<and>
   hasCycle '''' (addBond Molecule_init ''A'' ''A'' SINGLE) = True"
  by (simp add: hasCycle_def hasBond_def addBond_def addAtom_def Molecule_init_def Let_def
      push_back_at_def find_list_def neighbors_def at_or_def)

section \<open>Claims on the mapping functions\<close>

text \<open>
  C5. The claim is that \<^verbatim>\<open>graphCountComponents\<close> returns the number of connected
  components spanned by the keys of the mapping, and the source says the same (``Count
  connected components'' above the function; the change log gives the result 1 for the
  mapping \<open>{A: [B, C], B: [D], C: [D], D: []}\<close>, which lists each edge under one end
  only). The function follows the lists as one-way edges and never looks for the reverse
  entry, so a key that reaches a marked node, but is not reached from an earlier key,
  is counted again. On \<open>{A: [C], B: [C], C: []}\<close> the keys form one component and the
  result is 2 or 3 in every iteration order; on the mapping of the change log it is 1
  only in some orders, and 3 or 4 in others. Where reachability is symmetric the count
  is right in every order (lemma \<open>graphCountComponents_sym\<close>), and it never exceeds the
  number of keys (lemma \<open>graphCountComponents_bound\<close>).
\<close>

theorem graphCountComponents_one_way:
  "card (key_components [(''A'', [''C'']), (''B'', [''C'']), (''C'', [])]) = 1 \<and>
   graphCountComponents [(''A'', [''C'']), (''B'', [''C'']), (''C'', [])] = 2 \<and>
   graphCountComponents [(''A'', [''C'']), (''C'', []), (''B'', [''C''])] = 2 \<and>
   graphCountComponents [(''B'', [''C'']), (''A'', [''C'']), (''C'', [])] = 2 \<and>
   graphCountComponents [(''B'', [''C'']), (''C'', []), (''A'', [''C''])] = 2 \<and>
   graphCountComponents [(''C'', []), (''A'', [''C'']), (''B'', [''C''])] = 3 \<and>
   graphCountComponents [(''C'', []), (''B'', [''C'']), (''A'', [''C''])] = 3 \<and>
   card (key_components
     [(''A'', [''B'', ''C'']), (''B'', [''D'']), (''C'', [''D'']), (''D'', [])]) = 1 \<and>
   graphCountComponents
     [(''A'', [''B'', ''C'']), (''B'', [''D'']), (''C'', [''D'']), (''D'', [])] = 1 \<and>
   graphCountComponents
     [(''B'', [''D'']), (''C'', [''D'']), (''A'', [''B'', ''C'']), (''D'', [])] = 3 \<and>
   graphCountComponents
     [(''D'', []), (''C'', [''D'']), (''B'', [''D'']), (''A'', [''B'', ''C''])] = 4"
proof -
  let ?m = "[(''A'', [''C'']), (''B'', [''C'']), (''C'', [])]"
  let ?h = "[(''A'', [''B'', ''C'']), (''B'', [''D'']), (''C'', [''D'']), (''D'', [])]"
  have c: "graphCountComponents ?m = 2"
    "graphCountComponents [(''A'', [''C'']), (''C'', []), (''B'', [''C''])] = 2"
    "graphCountComponents [(''B'', [''C'']), (''A'', [''C'']), (''C'', [])] = 2"
    "graphCountComponents [(''B'', [''C'']), (''C'', []), (''A'', [''C''])] = 2"
    "graphCountComponents [(''C'', []), (''A'', [''C'']), (''B'', [''C''])] = 3"
    "graphCountComponents [(''C'', []), (''B'', [''C'']), (''A'', [''C''])] = 3"
    by (simp_all add: graphCountComponents_def find_list_def)
  have d: "graphCountComponents ?h = 1"
    "graphCountComponents
       [(''B'', [''D'']), (''C'', [''D'']), (''A'', [''B'', ''C'']), (''D'', [])] = 3"
    "graphCountComponents
       [(''D'', []), (''C'', [''D'']), (''B'', [''D'']), (''A'', [''B'', ''C''])] = 4"
    by (simp_all add: graphCountComponents_def find_list_def)
  have s: "sym ((uedges g)\<^sup>*)" for g :: "string adjmap"
    by (rule sym_rtrancl) (auto simp: sym_def uedges_def)
  have "(''A'', ''C'') \<in> uedges ?m" "(''B'', ''C'') \<in> uedges ?m"
    by (simp_all add: uedges_def edges_def find_list_def)
  then have r: "(''A'', ''C'') \<in> (uedges ?m)\<^sup>*" "(''B'', ''C'') \<in> (uedges ?m)\<^sup>*"
    by blast+
  have "component ?m ''A'' = component ?m ''C''" "component ?m ''B'' = component ?m ''C''"
    unfolding component_def
    by (rule sym_rtrancl_class [OF s r(1)], rule sym_rtrancl_class [OF s r(2)])
  then have k: "key_components ?m = {component ?m ''C''}"
    by (simp add: key_components_def)
  have e: "(''A'', ''B'') \<in> uedges ?h" "(''A'', ''C'') \<in> uedges ?h" "(''B'', ''D'') \<in> uedges ?h"
    by (simp_all add: uedges_def edges_def find_list_def)
  then have t: "(''A'', ''B'') \<in> (uedges ?h)\<^sup>*" "(''A'', ''C'') \<in> (uedges ?h)\<^sup>*"
    by blast+
  from e(1,3) have "(''A'', ''D'') \<in> (uedges ?h)\<^sup>*"
    by (rule converse_rtrancl_into_rtrancl [OF _ r_into_rtrancl])
  with t have "component ?h ''B'' = component ?h ''A''" "component ?h ''C'' = component ?h ''A''"
    "component ?h ''D'' = component ?h ''A''"
    unfolding component_def
    by (simp_all add: sym_rtrancl_class [OF s, symmetric])
  then have l: "key_components ?h = {component ?h ''A''}"
    by (simp add: key_components_def)
  show ?thesis
    using c d k l by simp
qed

text \<open>
  C4. \<^verbatim>\<open>graphShortestPath(graph, start, end)\<close> always returns. The result is empty when
  \<open>start\<close> is not a key and when no path leads from \<open>start\<close> to \<open>end\<close>; it is \<open>[start]\<close> when
  \<open>start\<close> is a key and equals \<open>end\<close>; and when \<open>start\<close> is a key and a path exists, the result
  is a path from \<open>start\<close> to \<open>end\<close> (first element \<open>start\<close>, last element \<open>end\<close>, each node a
  listed neighbour of its predecessor) that is no longer than any other such path.
\<close>

theorem graphShortestPath_correct:
  "(map_of graph start = None \<longrightarrow> graphShortestPath dflt graph start end = Some []) \<and>
   (map_of graph start \<noteq> None \<and> \<not> (\<exists>q. path_from_to graph start end q) \<longrightarrow>
      graphShortestPath dflt graph start end = Some []) \<and>
   (map_of graph start \<noteq> None \<and> start = end \<longrightarrow>
      graphShortestPath dflt graph start end = Some [start]) \<and>
   (map_of graph start \<noteq> None \<and> (\<exists>q. path_from_to graph start end q) \<longrightarrow>
      (\<exists>p. graphShortestPath dflt graph start end = Some p \<and>
           p \<noteq> [] \<and> hd p = start \<and> last p = end \<and> is_path graph p \<and>
           (\<forall>q. path_from_to graph start end q \<longrightarrow> length p \<le> length q)))"
proof (cases "map_of graph start = None")
  case True
  then show ?thesis by (simp add: graphShortestPath_def)
next
  case False
  let ?res = "graphShortestPath_loop dflt graph start end [start] {start} [start \<mapsto> start]"
  have "sp_inv graph start (\<lambda>x. 0) {} [start] {start} [start \<mapsto> start]"
    by (rule sp_inv_init)
  then have "\<exists>r. ?res = Some r \<and>
     (if \<exists>q. path_from_to graph start end q
      then path_from_to graph start end r \<and>
        (\<forall>q. path_from_to graph start end q \<longrightarrow> length r \<le> length q)
      else r = [])"
    by (rule graphShortestPath_loop_correct) simp
  then obtain r where r: "?res = Some r"
    and yes: "(\<exists>q. path_from_to graph start end q) \<Longrightarrow>
        path_from_to graph start end r \<and>
        (\<forall>q. path_from_to graph start end q \<longrightarrow> length r \<le> length q)"
    and no: "\<not> (\<exists>q. path_from_to graph start end q) \<Longrightarrow> r = []"
    by (auto split: if_splits)
  have res: "graphShortestPath dflt graph start end = Some r"
    unfolding graphShortestPath_def if_not_P [OF False] by (rule r)
  have c2: "\<not> (\<exists>q. path_from_to graph start end q) \<longrightarrow> r = []"
    using no by blast
  have c3: "start = end \<longrightarrow> r = [start]"
  proof
    assume eq: "start = end"
    then have p1: "path_from_to graph start end [start]"
      by (simp add: path_from_to_def)
    with yes have "path_from_to graph start end r" "length r \<le> length [start]"
      by blast+
    then show "r = [start]"
      by (cases r) (simp_all add: path_from_to_def)
  qed
  have c4: "(\<exists>q. path_from_to graph start end q) \<longrightarrow>
      r \<noteq> [] \<and> hd r = start \<and> last r = end \<and> is_path graph r \<and>
      (\<forall>q. path_from_to graph start end q \<longrightarrow> length r \<le> length q)"
    using yes unfolding path_from_to_def by blast
  show ?thesis
    unfolding res using False c2 c3 c4 by (simp del: not_None_eq)
qed

text \<open>
  The witness is the mapping \<open>{2: [3, 4], 3: [5], 4: [5], 5: []}\<close>, the example of the
  change log with numbers for letters.
\<close>

theorem graphShortestPath_correct_witness:
  "map_of [(2::nat, [3, 4]), (3, [5]), (4, [5]), (5, [])] 9 = None \<and>
   graphShortestPath 0 [(2::nat, [3, 4]), (3, [5]), (4, [5]), (5, [])] 9 5 = Some [] \<and>
   map_of [(2::nat, [3, 4]), (3, [5]), (4, [5]), (5, [])] 2 \<noteq> None \<and>
   graphShortestPath 0 [(2::nat, [3, 4]), (3, [5]), (4, [5]), (5, [])] 2 2 = Some [2] \<and>
   path_from_to [(2::nat, [3, 4]), (3, [5]), (4, [5]), (5, [])] 2 5 [2, 4, 5] \<and>
   graphShortestPath 0 [(2::nat, [3, 4]), (3, [5]), (4, [5]), (5, [])] 2 5 = Some [2, 3, 5] \<and>
   is_path [(2::nat, [3, 4]), (3, [5]), (4, [5]), (5, [])] [2, 3, 5] \<and>
   map_of [(2::nat, [3, 4]), (3, [5]), (4, [5]), (5, [])] 5 \<noteq> None \<and>
   graphShortestPath 0 [(2::nat, [3, 4]), (3, [5]), (4, [5]), (5, [])] 5 2 = Some [] \<and>
   \<not> (\<exists>q. path_from_to [(2::nat, [3, 4]), (3, [5]), (4, [5]), (5, [])] 5 2 q)"
proof -
  let ?g = "[(2::nat, [3, 4]), (3, [5]), (4, [5]), (5, [])]"
  have k: "map_of ?g 9 = None" "map_of ?g 2 \<noteq> None" "map_of ?g 5 \<noteq> None"
    by simp_all
  have p: "path_from_to ?g 2 5 [2, 4, 5]"
    by (simp add: path_from_to_def find_list_def)
  have v: "graphShortestPath 0 ?g 2 5 = Some [2, 3, 5]" "graphShortestPath 0 ?g 5 2 = Some []"
    by (simp_all add: graphShortestPath_def reconstruct_def reconstruct_loop.simps find_list_def
        at_or_def)
  show ?thesis
    using graphShortestPath_correct [of ?g 9 0 5] graphShortestPath_correct [of ?g 2 0 2]
      graphShortestPath_correct [of ?g 2 0 5] graphShortestPath_correct [of ?g 5 0 2] k p v
    by auto
qed

section \<open>Totality and degenerate inputs\<close>

text \<open>
  C8, as amended. Every query and traversal is a total function: the loops of
  \<^verbatim>\<open>neighbors\<close>, \<^verbatim>\<open>bfs\<close>, \<^verbatim>\<open>dfs\<close>, \<^verbatim>\<open>hasPath\<close>, \<^verbatim>\<open>isConnected\<close>, \<^verbatim>\<open>hasCycle\<close>,
  \<^verbatim>\<open>graphHasPath\<close>, \<^verbatim>\<open>graphCountComponents\<close> and \<^verbatim>\<open>graphIsBipartite\<close> are defined above with
  their termination proofs and have no failing branch, and \<^verbatim>\<open>graphShortestPath\<close>, whose
  parent walk is a partial function, returns on every input. An absent node gives an
  empty neighbour list, empty traversals and a false \<^verbatim>\<open>hasPath\<close>; a missing path or a
  missing start key gives false and the empty sequence. On the empty mapping
  \<^verbatim>\<open>graphHasPath\<close> is false, \<^verbatim>\<open>graphShortestPath\<close> is empty, \<^verbatim>\<open>graphCountComponents\<close> is 0
  and \<^verbatim>\<open>graphIsBipartite\<close> is true; on the empty Molecule \<^verbatim>\<open>isConnected\<close> is true and
  \<^verbatim>\<open>hasCycle\<close> is false.
\<close>

theorem queries_total:
  "(built g \<and> \<not> hasAtom g a \<longrightarrow> neighbors g a = []) \<and>
   (\<not> hasAtom g a \<longrightarrow> bfs g a = [] \<and> dfs g a = []) \<and>
   (\<not> hasAtom g a \<or> \<not> hasAtom g b \<longrightarrow> \<not> hasPath g a b) \<and>
   ((a, b) \<notin> (edges (adjacency g))\<^sup>* \<longrightarrow> \<not> hasPath g a b) \<and>
   isConnected (Molecule_init :: 'a Molecule) \<and>
   \<not> hasCycle dflt (Molecule_init :: 'a Molecule) \<and>
   (\<exists>p. graphShortestPath dflt graph a b = Some p) \<and>
   (map_of graph a = None \<longrightarrow>
      \<not> graphHasPath graph a b \<and> graphShortestPath dflt graph a b = Some []) \<and>
   ((a, b) \<notin> (edges graph)\<^sup>* \<longrightarrow>
      \<not> graphHasPath graph a b \<and> graphShortestPath dflt graph a b = Some []) \<and>
   \<not> graphHasPath [] a b \<and>
   graphShortestPath dflt [] a b = Some [] \<and>
   graphCountComponents ([] :: 'a adjmap) = 0 \<and>
   graphIsBipartite ([] :: 'a adjmap)"
proof -
  have c1: "built g \<and> \<not> hasAtom g a \<longrightarrow> neighbors g a = []"
    by (simp add: neighbors_absent)
  have c2: "\<not> hasAtom g a \<longrightarrow> bfs g a = [] \<and> dfs g a = []"
    by (simp add: bfs_def dfs_def)
  have c3: "\<not> hasAtom g a \<or> \<not> hasAtom g b \<longrightarrow> \<not> hasPath g a b"
    by (simp add: hasPath_def)
  have "hasPath_loop g b [a] {a} \<longleftrightarrow> b \<in> (edges (adjacency g))\<^sup>* `` {a}"
    by (rule hasPath_loop_correct [of _ "{}"]) simp_all
  then have c4: "(a, b) \<notin> (edges (adjacency g))\<^sup>* \<longrightarrow> \<not> hasPath g a b"
    by (auto simp: hasPath_def)
  have c5: "isConnected (Molecule_init :: 'a Molecule)"
    by (simp add: isConnected_def Molecule_init_def)
  have c6: "\<not> hasCycle dflt (Molecule_init :: 'a Molecule)"
    by (simp add: hasCycle_def Molecule_init_def)
  obtain p where p: "graphShortestPath dflt graph a b = Some p"
    "(a, b) \<notin> (edges graph)\<^sup>* \<longrightarrow> p = []"
    using graphShortestPath_returns [of dflt graph a b] by blast
  have c7: "\<exists>p. graphShortestPath dflt graph a b = Some p"
    using p(1) by blast
  have c8: "map_of graph a = None \<longrightarrow>
      \<not> graphHasPath graph a b \<and> graphShortestPath dflt graph a b = Some []"
    by (simp add: graphHasPath_def graphShortestPath_def)
  have c9: "(a, b) \<notin> (edges graph)\<^sup>* \<longrightarrow>
      \<not> graphHasPath graph a b \<and> graphShortestPath dflt graph a b = Some []"
    using p graphHasPath_sound [of graph a b] by auto
  have c10: "\<not> graphHasPath [] a b" "graphShortestPath dflt [] a b = Some []"
    by (simp_all add: graphHasPath_def graphShortestPath_def)
  have c11: "graphCountComponents ([] :: 'a adjmap) = 0" "graphIsBipartite ([] :: 'a adjmap)"
    by (simp_all add: graphCountComponents_def graphIsBipartite_def)
  show ?thesis
    by (intro conjI) (rule c1, rule c2, rule c3, rule c4, rule c5, rule c6, rule c7, rule c8,
        rule c9, rule c10(1), rule c10(2), rule c11(1), rule c11(2))
qed

theorem queries_total_witness:
  "built (addBond Molecule_init (2::nat) 3 ARROW) \<and>
   \<not> hasAtom (addBond Molecule_init (2::nat) 3 ARROW) 4 \<and>
   neighbors (addBond Molecule_init (2::nat) 3 ARROW) 4 = [] \<and>
   bfs (addBond Molecule_init (2::nat) 3 ARROW) 4 = [] \<and>
   dfs (addBond Molecule_init (2::nat) 3 ARROW) 4 = [] \<and>
   \<not> hasPath (addBond Molecule_init (2::nat) 3 ARROW) 4 2 \<and>
   (3, 2) \<notin> (edges (adjacency (addBond Molecule_init (2::nat) 3 ARROW)))\<^sup>* \<and>
   \<not> hasPath (addBond Molecule_init (2::nat) 3 ARROW) 3 2 \<and>
   map_of [(2::nat, [3]), (3, [])] 4 = None \<and>
   \<not> graphHasPath [(2::nat, [3]), (3, [])] 4 2 \<and>
   graphShortestPath 0 [(2::nat, [3]), (3, [])] 4 2 = Some [] \<and>
   (3, 2) \<notin> (edges [(2::nat, [3]), (3, [])])\<^sup>* \<and>
   \<not> graphHasPath [(2::nat, [3]), (3, [])] 3 2 \<and>
   graphShortestPath 0 [(2::nat, [3]), (3, [])] 3 2 = Some []"
proof -
  let ?g = "addBond Molecule_init (2::nat) 3 ARROW"
  let ?m = "[(2::nat, [3]), (3, [])]"
  have b: "built ?g"
    by (intro built_addBond built_init)
  have adj: "adjacency ?g = ?m"
    by (simp add: addBond_def addAtom_def Molecule_init_def Let_def push_back_at_def find_list_def)
  have at: "atoms ?g = [2, 3]"
    by (simp add: addBond_def addAtom_def Molecule_init_def Let_def)
  have h: "\<not> hasAtom ?g 4"
    by (simp add: hasAtom_def at)
  have k: "map_of ?m 4 = None"
    by simp
  have r: "(3, 2) \<notin> (edges ?m)\<^sup>*"
    by (rule no_out_edge) (simp_all add: find_list_def)
  show ?thesis
    using queries_total [where g = ?g and a = 4 and b = 2 and graph = ?m and dflt = 0]
      queries_total [where g = ?g and a = 3 and b = 2 and graph = ?m and dflt = 0]
      b h k r
    by (simp add: adj)
qed

text \<open>
  The claim as stated says that an empty mapping resolves to an empty sequence or to
  false; \<^verbatim>\<open>graphIsBipartite\<close> answers true on it.
\<close>

theorem empty_mapping_counterexample:
  "graphIsBipartite ([] :: nat adjmap) = True"
  by (simp add: graphIsBipartite_def)

end
